theory Spec2Isabelle
  imports Main "HOL-Library.Sublist"
begin

section \<open>Data model of the loop manager\<close>

text \<open>
  The embedding follows \<^verbatim>\<open>LoopManager\<close> (loop-manager.ts) and the input handler of
  \<^verbatim>\<open>RalphOverlay\<close> (overlay.ts). JavaScript numbers that the code only copies are
  integers here; \<^verbatim>\<open>Date.now()\<close> is a parameter \<open>now\<close> of every operation that reads the
  clock; the opaque \<^verbatim>\<open>ptySession\<close> object is a handle (a natural number). The listener
  set and the poll timer are not part of the state: \<^verbatim>\<open>emitChange\<close> only calls back into
  readers.
\<close>

datatype LoopSource = Tool | Discovered

type_synonym PtySession = nat

record TrackedLoop =
  id' :: string
  pid :: "int option"
  directory :: "string option"
  worktree :: "string option"
  status :: string
  iteration :: int
  maxIterations :: int
  hat :: "string option"
  elapsedSecs :: int
  backend :: "string option"
  source :: LoopSource
  ptySession :: "PtySession option"
  removed :: bool
  lastSeenAt :: int

record LoopManager =
  loops :: "TrackedLoop list"
  focusedIndex :: int
  pollInFlight :: bool
  consecutivePollFailures :: int
  lastPollError :: "string option"

subsection \<open>JavaScript helpers\<close>

text \<open>\<^verbatim>\<open>s.startsWith(p)\<close>.\<close>

definition startsWith :: "string \<Rightarrow> string \<Rightarrow> bool" where
  "startsWith s p = prefix p s"

text \<open>Truthiness of a \<^verbatim>\<open>string | null\<close>: neither null nor the empty string.\<close>

definition truthy :: "string option \<Rightarrow> bool" where
  "truthy s = (case s of None \<Rightarrow> False | Some x \<Rightarrow> x \<noteq> [])"

text \<open>\<^verbatim>\<open>xs[i] ?? null\<close>: reading outside the array gives \<^verbatim>\<open>undefined\<close>, hence null.\<close>

definition nth_opt :: "'a list \<Rightarrow> int \<Rightarrow> 'a option" where
  "nth_opt xs i = (if 0 \<le> i \<and> i < int (length xs) then Some (xs ! nat i) else None)"

text \<open>The remainder operator \<^verbatim>\<open>%\<close> on integers: the sign follows the dividend.\<close>

definition js_rem :: "int \<Rightarrow> int \<Rightarrow> int" where
  "js_rem a n = (if a < 0 then - ((- a) mod n) else a mod n)"

text \<open>\<^verbatim>\<open>xs.findIndex(p)\<close>, with None for \<^verbatim>\<open>-1\<close>.\<close>

fun findIndex :: "('a \<Rightarrow> bool) \<Rightarrow> 'a list \<Rightarrow> nat option" where
  "findIndex p [] = None"
| "findIndex p (x # xs) =
     (if p x then Some 0 else (case findIndex p xs of None \<Rightarrow> None | Some i \<Rightarrow> Some (Suc i)))"

subsection \<open>The insertion-ordered \<^verbatim>\<open>Map<string, TrackedLoop>\<close>\<close>

text \<open>
  A JavaScript \<^verbatim>\<open>Map\<close> iterates in insertion order; \<^verbatim>\<open>set\<close> on a present key replaces
  the value in place, on an absent key appends; \<^verbatim>\<open>delete\<close> drops the entry, and a later
  \<^verbatim>\<open>set\<close> of that key appends it again.
\<close>

type_synonym LoopMap = "(string \<times> TrackedLoop) list"

definition map_has :: "LoopMap \<Rightarrow> string \<Rightarrow> bool" where
  "map_has m k = (k \<in> set (map fst m))"

definition map_get :: "LoopMap \<Rightarrow> string \<Rightarrow> TrackedLoop option" where
  "map_get m k = map_of m k"

definition map_set :: "string \<Rightarrow> TrackedLoop \<Rightarrow> LoopMap \<Rightarrow> LoopMap" where
  "map_set k v m =
     (if map_has m k then map (\<lambda>e. if fst e = k then (k, v) else e) m else m @ [(k, v)])"

definition map_delete :: "string \<Rightarrow> LoopMap \<Rightarrow> LoopMap" where
  "map_delete k m = filter (\<lambda>e. fst e \<noteq> k) m"

text \<open>\<^verbatim>\<open>new Map(entries)\<close>.\<close>

definition map_from_entries :: "(string \<times> TrackedLoop) list \<Rightarrow> LoopMap" where
  "map_from_entries es = foldl (\<lambda>m e. map_set (fst e) (snd e) m) [] es"

subsection \<open>Reading the collection and the focus\<close>

definition getLoops :: "bool \<Rightarrow> LoopManager \<Rightarrow> TrackedLoop list" where
  "getLoops includeRemoved st =
     (if includeRemoved then loops st else filter (\<lambda>l. \<not> removed l) (loops st))"

definition getFocused :: "LoopManager \<Rightarrow> LoopManager \<times> TrackedLoop option" where
  "getFocused st =
     (let active = getLoops False st in
      if length active = 0 then (st, None)
      else
        let idx = min (max (focusedIndex st) 0) (int (length active) - 1)
        in (st\<lparr>focusedIndex := idx\<rparr>, nth_opt active idx))"

definition cycleFocus :: "int \<Rightarrow> LoopManager \<Rightarrow> LoopManager \<times> TrackedLoop option" where
  "cycleFocus direction st =
     (let active = getLoops False st in
      if length active = 0 then (st\<lparr>focusedIndex := 0\<rparr>, None)
      else
        let n = int (length active);
            fi = js_rem (focusedIndex st + direction + n) n
        in (st\<lparr>focusedIndex := fi\<rparr>, nth_opt active fi))"

definition setFocusById :: "string \<Rightarrow> LoopManager \<Rightarrow> LoopManager" where
  "setFocusById i st =
     (case findIndex (\<lambda>l. id' l = i) (getLoops False st) of
        Some idx \<Rightarrow> st\<lparr>focusedIndex := int idx\<rparr>
      | None \<Rightarrow> st)"

subsection \<open>\<^verbatim>\<open>upsertToolLoop\<close>\<close>

record StartParams =
  sp_id :: string
  sp_pid :: int
  sp_directory :: string
  sp_worktree :: "string option"
  sp_ptySession :: PtySession

definition tool_record :: "int \<Rightarrow> StartParams \<Rightarrow> TrackedLoop" where
  "tool_record now p =
     \<lparr> id' = sp_id p, pid = Some (sp_pid p), directory = Some (sp_directory p),
       worktree = sp_worktree p, status = ''running'', iteration = 0, maxIterations = 0,
       hat = None, elapsedSecs = 0, backend = None, source = Tool,
       ptySession = Some (sp_ptySession p), removed = False, lastSeenAt = now \<rparr>"

text \<open>
  The spread \<^verbatim>\<open>{...this.loops[existingIdx], ...next, source, ptySession, removed,
  lastSeenAt}\<close>: \<^verbatim>\<open>next\<close> carries every field of a \<^verbatim>\<open>TrackedLoop\<close>, so each field of the
  existing record is overridden, and the four fields written after it repeat the values
  \<^verbatim>\<open>next\<close> already holds.
\<close>

definition upsert_existing :: "int \<Rightarrow> StartParams \<Rightarrow> TrackedLoop \<Rightarrow> TrackedLoop" where
  "upsert_existing now p existing =
     (tool_record now p)\<lparr> source := Tool, ptySession := Some (sp_ptySession p),
        removed := False, lastSeenAt := now \<rparr>"

definition upsertToolLoop :: "int \<Rightarrow> StartParams \<Rightarrow> LoopManager \<Rightarrow> LoopManager" where
  "upsertToolLoop now p st =
     (case findIndex (\<lambda>l. id' l = sp_id p) (loops st) of
        Some existingIdx \<Rightarrow>
          st\<lparr>loops := (loops st)[existingIdx := upsert_existing now p (loops st ! existingIdx)]\<rparr>
      | None \<Rightarrow>
          (let st1 = st\<lparr>loops := loops st @ [tool_record now p]\<rparr>
           in if length (getLoops False st1) = 1 then st1\<lparr>focusedIndex := 0\<rparr> else st1))"

subsection \<open>\<^verbatim>\<open>mergePolled\<close>\<close>

text \<open>The test of the inner loop that looks for a tool-started primary loop to re-key.\<close>

definition rekey_match :: "TrackedLoop \<Rightarrow> string \<times> TrackedLoop \<Rightarrow> bool" where
  "rekey_match next e =
     (source (snd e) = Tool \<and> startsWith (fst e) ''primary-'' \<and>
      directory (snd e) = directory next)"

text \<open>
  The test \<^verbatim>\<open>next.directory && !next.directory.startsWith("(")\<close>: the directory of the
  candidate is neither null nor empty nor a display value such as \<^verbatim>\<open>(in-place)\<close>.
\<close>

definition usable_directory :: "string option \<Rightarrow> bool" where
  "usable_directory d = (case d of None \<Rightarrow> False | Some s \<Rightarrow> s \<noteq> [] \<and> \<not> startsWith s ''('')"

text \<open>The record stored for a candidate whose identity is already known.\<close>

definition merge_existing :: "int \<Rightarrow> TrackedLoop \<Rightarrow> TrackedLoop \<Rightarrow> TrackedLoop" where
  "merge_existing now existing next =
     next\<lparr> directory :=
             (if usable_directory (directory next) then directory next else directory existing),
           worktree :=
             (case worktree next of None \<Rightarrow> worktree existing | Some w \<Rightarrow> Some w),
           source := source existing,
           ptySession := ptySession existing,
           removed := False,
           lastSeenAt := now \<rparr>"

text \<open>The record stored for a candidate seen for the first time.\<close>

definition merge_new :: "int \<Rightarrow> TrackedLoop \<Rightarrow> TrackedLoop" where
  "merge_new now next = next\<lparr> removed := False, lastSeenAt := now \<rparr>"

text \<open>
  One round of the loop over the candidates; the state is the map \<^verbatim>\<open>byId\<close> and the set
  \<^verbatim>\<open>seen\<close>.
\<close>

definition merge_step ::
  "int \<Rightarrow> LoopMap \<times> string set \<Rightarrow> TrackedLoop \<Rightarrow> LoopMap \<times> string set" where
  "merge_step now s next =
     (let byId = fst s;
          seen = insert (id' next) (snd s)
      in case map_get byId (id' next) of
           Some existing \<Rightarrow>
             (map_set (id' next) (merge_existing now existing next) byId, seen)
         | None \<Rightarrow>
             if id' next = ''(primary)'' then
               (case find (rekey_match next) byId of
                  Some e \<Rightarrow>
                    (map_set (id' next) (merge_existing now (snd e) next)
                       (map_delete (fst e) byId), seen)
                | None \<Rightarrow> (map_set (id' next) (merge_new now next) byId, seen))
             else (map_set (id' next) (merge_new now next) byId, seen))"

text \<open>The loop that marks the loops missing from the poll.\<close>

definition mark_removed :: "string set \<Rightarrow> LoopMap \<Rightarrow> LoopMap" where
  "mark_removed seen byId =
     map (\<lambda>e. if id' (snd e) \<notin> seen \<and> source (snd e) \<noteq> Tool
               then (fst e, (snd e)\<lparr>removed := True\<rparr>) else e) byId"

text \<open>The two loops that build \<^verbatim>\<open>orderedIds\<close>.\<close>

definition orderedIds :: "string list \<Rightarrow> LoopMap \<Rightarrow> string list" where
  "orderedIds prevOrder byId =
     foldl (\<lambda>acc i. if i \<in> set acc then acc else acc @ [i])
       (filter (map_has byId) prevOrder) (map fst byId)"

definition mergePolled :: "int \<Rightarrow> TrackedLoop list \<Rightarrow> LoopManager \<Rightarrow> LoopManager" where
  "mergePolled now polled st =
     (let byId0 = map_from_entries (map (\<lambda>l. (id' l, l)) (loops st));
          s = foldl (merge_step now) (byId0, {}) polled;
          byId = mark_removed (snd s) (fst s);
          ids = orderedIds (map id' (loops st)) byId;
          st1 = st\<lparr>loops := List.map_filter (map_get byId) ids\<rparr>;
          active = getLoops False st1
      in if length active = 0 then st1\<lparr>focusedIndex := 0\<rparr>
         else st1\<lparr>focusedIndex := min (focusedIndex st1) (int (length active) - 1)\<rparr>)"

subsection \<open>\<^verbatim>\<open>parseLoopsJson\<close>\<close>

text \<open>
  The value \<^verbatim>\<open>JSON.parse\<close> returns. An object keeps its members in the order written; a
  repeated key reads as its last occurrence.
\<close>

datatype json =
    JNull
  | JBool bool
  | JNum int
  | JStr string
  | JArr "json list"
  | JObj "(string \<times> json) list"

text \<open>
  \<^verbatim>\<open>raw?.k\<close>: None stands for \<^verbatim>\<open>undefined\<close>, which is what the access gives on null, on
  a value that is no object and on an object without the member.
\<close>

definition get_field :: "json \<Rightarrow> string \<Rightarrow> json option" where
  "get_field raw k = (case raw of JObj fs \<Rightarrow> map_of (rev fs) k | _ \<Rightarrow> None)"

text \<open>\<^verbatim>\<open>typeof raw?.k === "string" ? raw.k : null\<close>, and the same for numbers.\<close>

definition str_field :: "json \<Rightarrow> string \<Rightarrow> string option" where
  "str_field raw k = (case get_field raw k of Some (JStr s) \<Rightarrow> Some s | _ \<Rightarrow> None)"

definition num_field :: "json \<Rightarrow> string \<Rightarrow> int option" where
  "num_field raw k = (case get_field raw k of Some (JNum n) \<Rightarrow> Some n | _ \<Rightarrow> None)"

definition isAbsPath :: "string option \<Rightarrow> bool" where
  "isAbsPath s = (case s of None \<Rightarrow> False | Some x \<Rightarrow> length x > 0 \<and> startsWith x ''/'')"

text \<open>The chain of conditionals that picks the directory of a parsed record.\<close>

definition parse_directory :: "json \<Rightarrow> string option" where
  "parse_directory raw =
     (if isAbsPath (str_field raw ''directory'') then str_field raw ''directory''
      else if isAbsPath (str_field raw ''path'') then str_field raw ''path''
      else if isAbsPath (str_field raw ''workspace'') then str_field raw ''workspace''
      else if isAbsPath (str_field raw ''worktree_path'') then str_field raw ''worktree_path''
      else None)"

text \<open>The function mapped over the array; None is the \<^verbatim>\<open>null\<close> that the filter drops.\<close>

definition parse_record :: "int \<Rightarrow> json \<Rightarrow> TrackedLoop option" where
  "parse_record now raw =
     (case (case str_field raw ''loop_id'' of Some s \<Rightarrow> Some s | None \<Rightarrow> str_field raw ''id'') of
        None \<Rightarrow> None
      | Some i \<Rightarrow>
          if i = [] then None
          else Some
            \<lparr> id' = i,
              pid = num_field raw ''pid'',
              directory = parse_directory raw,
              worktree = str_field raw ''worktree'',
              status =
                (case str_field raw ''state'' of
                   Some s \<Rightarrow> s
                 | None \<Rightarrow> (case str_field raw ''status'' of Some s \<Rightarrow> s | None \<Rightarrow> ''unknown'')),
              iteration = (case num_field raw ''iteration'' of Some n \<Rightarrow> n | None \<Rightarrow> 0),
              maxIterations =
                (case num_field raw ''max_iterations'' of
                   Some n \<Rightarrow> n
                 | None \<Rightarrow> (case num_field raw ''maxIterations'' of Some n \<Rightarrow> n | None \<Rightarrow> 0)),
              hat = str_field raw ''hat'',
              elapsedSecs =
                (case num_field raw ''elapsed_secs'' of
                   Some n \<Rightarrow> n
                 | None \<Rightarrow> (case num_field raw ''elapsedSecs'' of Some n \<Rightarrow> n | None \<Rightarrow> 0)),
              backend = str_field raw ''backend'',
              source = Discovered,
              ptySession = None,
              removed = False,
              lastSeenAt = now \<rparr>)"

text \<open>
  The trimmed standard output of \<^verbatim>\<open>ralph loops list --json\<close>, as \<^verbatim>\<open>parseLoopsJson\<close> sees
  it: empty, text that \<^verbatim>\<open>JSON.parse\<close> rejects, or a parsed value.
\<close>

datatype Stdout = StdoutEmpty | StdoutMalformed | StdoutJson json

datatype ParseError = FailedToParse | UnexpectedShape

definition parseLoopsJson :: "int \<Rightarrow> Stdout \<Rightarrow> ParseError + TrackedLoop list" where
  "parseLoopsJson now out =
     (case out of
        StdoutEmpty \<Rightarrow> Inr []
      | StdoutMalformed \<Rightarrow> Inl FailedToParse
      | StdoutJson data \<Rightarrow>
          (case data of
             JArr items \<Rightarrow> Inr (List.map_filter (parse_record now) items)
           | _ \<Rightarrow> Inl UnexpectedShape))"

subsection \<open>\<^verbatim>\<open>poll\<close>\<close>

text \<open>
  What \<^verbatim>\<open>await this.pi.exec(...)\<close> yields in a directory: the promise rejects with a
  message, or resolves to an exit code and the output.
\<close>

datatype ExecOutcome = ExecThrows string | ExecResult int Stdout

record PollEnv =
  exec :: "string \<Rightarrow> ExecOutcome"
  cwd :: string
  clock :: int

text \<open>\<^verbatim>\<open>Set.add\<close> on an insertion-ordered set.\<close>

definition set_add :: "'a list \<Rightarrow> 'a \<Rightarrow> 'a list" where
  "set_add acc x = (if x \<in> set acc then acc else acc @ [x])"

definition poll_dirs :: "string \<Rightarrow> LoopManager \<Rightarrow> string list" where
  "poll_dirs wd st =
     (let dirs = foldl (\<lambda>acc l. case directory l of
                                   None \<Rightarrow> acc
                                 | Some d \<Rightarrow> if d \<noteq> [] then set_add acc d else acc)
                   [] (loops st)
      in if length dirs = 0 then [wd] else dirs)"

text \<open>
  The loop over the directories. The state is \<^verbatim>\<open>allParsed\<close> and \<^verbatim>\<open>anySuccess\<close>; a
  rejected \<^verbatim>\<open>exec\<close> leaves the loop with the message (\<open>Inl\<close>), a parse error is swallowed.
\<close>

fun poll_loop ::
  "PollEnv \<Rightarrow> string list \<Rightarrow> TrackedLoop list \<times> bool \<Rightarrow> string + (TrackedLoop list \<times> bool)" where
  "poll_loop env [] acc = Inr acc"
| "poll_loop env (dir # dirs) acc =
     (case exec env dir of
        ExecThrows msg \<Rightarrow> Inl msg
      | ExecResult code out \<Rightarrow>
          if code = 0 then
            (case parseLoopsJson (clock env) out of
               Inr parsed \<Rightarrow>
                 poll_loop env dirs
                   (fst acc @
                      map (\<lambda>l. if \<not> truthy (directory l) then l\<lparr>directory := Some dir\<rparr> else l)
                        parsed,
                    True)
             | Inl err \<Rightarrow> poll_loop env dirs (fst acc, True))
          else poll_loop env dirs acc)"

text \<open>The body of the \<^verbatim>\<open>try\<close> block with its \<^verbatim>\<open>catch\<close>.\<close>

definition poll_body :: "PollEnv \<Rightarrow> LoopManager \<Rightarrow> LoopManager \<times> TrackedLoop list option" where
  "poll_body env st =
     (case poll_loop env (poll_dirs (cwd env) st) ([], False) of
        Inl msg \<Rightarrow>
          (st\<lparr>consecutivePollFailures := consecutivePollFailures st + 1,
              lastPollError := Some msg\<rparr>, None)
      | Inr r \<Rightarrow>
          (let allParsed = map snd (map_from_entries (map (\<lambda>l. (id' l, l)) (fst r)))
           in if \<not> snd r then
                (st\<lparr>consecutivePollFailures := consecutivePollFailures st + 1,
                    lastPollError := Some ''all poll attempts failed''\<rparr>, None)
              else
                (let st1 = (mergePolled (clock env) allParsed st)
                              \<lparr>consecutivePollFailures := 0, lastPollError := None\<rparr>
                 in (st1, Some (getLoops False st1)))))"

text \<open>
  \<^verbatim>\<open>poll\<close> in three parts: the guard with the setting of the in-flight flag, which run
  before the first \<^verbatim>\<open>await\<close>; the body; and the \<^verbatim>\<open>finally\<close> block. Between
  \<open>poll_enter\<close> and \<open>poll_finish\<close> the call is outstanding.
\<close>

definition poll_enter :: "LoopManager \<Rightarrow> LoopManager option" where
  "poll_enter st = (if pollInFlight st then None else Some (st\<lparr>pollInFlight := True\<rparr>))"

definition poll_finish :: "PollEnv \<Rightarrow> LoopManager \<Rightarrow> LoopManager \<times> TrackedLoop list option" where
  "poll_finish env st =
     (let r = poll_body env st in ((fst r)\<lparr>pollInFlight := False\<rparr>, snd r))"

definition poll :: "PollEnv \<Rightarrow> LoopManager \<Rightarrow> LoopManager \<times> TrackedLoop list option" where
  "poll env st =
     (case poll_enter st of None \<Rightarrow> (st, None) | Some st1 \<Rightarrow> poll_finish env st1)"

text \<open>
  The outcome of one queried source: it fails (the command returns a non-zero exit code),
  succeeds (exit code 0), or at least returns (the promise is not rejected).
\<close>

definition source_fails :: "PollEnv \<Rightarrow> string \<Rightarrow> bool" where
  "source_fails env d = (case exec env d of ExecThrows m \<Rightarrow> False | ExecResult c out \<Rightarrow> c \<noteq> 0)"

definition source_succeeds :: "PollEnv \<Rightarrow> string \<Rightarrow> bool" where
  "source_succeeds env d = (case exec env d of ExecThrows m \<Rightarrow> False | ExecResult c out \<Rightarrow> c = 0)"

definition source_returns :: "PollEnv \<Rightarrow> string \<Rightarrow> bool" where
  "source_returns env d = (case exec env d of ExecThrows m \<Rightarrow> False | ExecResult c out \<Rightarrow> True)"

text \<open>
  What one queried directory adds to \<^verbatim>\<open>allParsed\<close>: the records parsed from the output of a
  command that exits with code 0, tagged with the directory where they name none; nothing
  when the command exits with another code or its output does not parse.
\<close>

definition poll_contribution :: "PollEnv \<Rightarrow> string \<Rightarrow> TrackedLoop list" where
  "poll_contribution env dir =
     (case exec env dir of
        ExecThrows msg \<Rightarrow> []
      | ExecResult code out \<Rightarrow>
          if code = 0 then
            (case parseLoopsJson (clock env) out of
               Inr parsed \<Rightarrow>
                 map (\<lambda>l. if \<not> truthy (directory l) then l\<lparr>directory := Some dir\<rparr> else l) parsed
             | Inl err \<Rightarrow> [])
          else [])"

text \<open>
  A source that exits with code 0 and whose output \<^verbatim>\<open>parseLoopsJson\<close> rejects: the
  \<^verbatim>\<open>catch\<close> inside the loop swallows the error after \<^verbatim>\<open>anySuccess\<close> has been set.
\<close>

definition source_unparsable :: "PollEnv \<Rightarrow> string \<Rightarrow> bool" where
  "source_unparsable env d =
     (case exec env d of
        ExecThrows m \<Rightarrow> False
      | ExecResult c out \<Rightarrow> c = 0 \<and> isl (parseLoopsJson (clock env) out))"

subsection \<open>The input handler of the overlay\<close>

datatype ViewMode = Pty | History | Diff

datatype KeyId = KeyEscape | KeyUp | KeyDown | KeyLeft | KeyRight | KeyShiftUp | KeyShiftDown

record Confirm =
  action :: string
  command :: "string list"
  label :: string

text \<open>
  What the handler does to its collaborators: \<^verbatim>\<open>runAction(label, command)\<close> starts the
  external command \<^verbatim>\<open>ralph command\<close>; \<^verbatim>\<open>close()\<close> disposes an ephemeral session and calls
  \<^verbatim>\<open>done\<close>.
\<close>

datatype Effect = RunAction string "string list" | Dispose PtySession | Done

record Overlay =
  manager :: LoopManager
  session :: "PtySession option"
  sessionEphemeral :: bool
  view :: ViewMode
  textScroll :: int
  confirm :: "Confirm option"
  footerMessage :: "string option"
  effects :: "Effect list"

definition disposeSessionIfEphemeral :: "Overlay \<Rightarrow> Overlay" where
  "disposeSessionIfEphemeral ov =
     (let ov1 = (case session ov of
                   Some s \<Rightarrow> if sessionEphemeral ov then ov\<lparr>effects := effects ov @ [Dispose s]\<rparr> else ov
                 | None \<Rightarrow> ov)
      in ov1\<lparr>session := None, sessionEphemeral := False\<rparr>)"

definition close :: "Overlay \<Rightarrow> Overlay" where
  "close ov = (let ov1 = disposeSessionIfEphemeral ov in ov1\<lparr>effects := effects ov1 @ [Done]\<rparr>)"

text \<open>
  \<^verbatim>\<open>runAction\<close> up to its first \<^verbatim>\<open>await\<close>: the footer shows the label, the focus is read
  for the working directory, and the command is started.
\<close>

definition runAction :: "string \<Rightarrow> string list \<Rightarrow> Overlay \<Rightarrow> Overlay" where
  "runAction lbl cmd ov =
     ov\<lparr> footerMessage := Some (lbl @ ''...''),
         manager := fst (getFocused (manager ov)),
         effects := effects ov @ [RunAction lbl cmd] \<rparr>"

text \<open>
  \<^verbatim>\<open>handleInput\<close> down to the end of the confirmation block. \<open>matchesKey\<close> is the
  function of that name of the terminal library; \<open>idle\<close> is the remainder of the handler
  (view switching, loop switching, scrolling, actions), which is reached only when the
  input is not Escape and no confirmation is pending.
\<close>

definition handleInput ::
  "(string \<Rightarrow> KeyId \<Rightarrow> bool) \<Rightarrow> (string \<Rightarrow> Overlay \<Rightarrow> Overlay) \<Rightarrow> string \<Rightarrow> Overlay \<Rightarrow> Overlay" where
  "handleInput matchesKey idle data ov =
     (if matchesKey data KeyEscape then
        (if confirm ov \<noteq> None then ov\<lparr>confirm := None, footerMessage := Some ''Cancelled''\<rparr>
         else if view ov \<noteq> Pty then ov\<lparr>view := Pty, textScroll := 0\<rparr>
         else close ov)
      else
        (case confirm ov of
           Some c \<Rightarrow>
             if data = ''y'' \<or> data = ''Y'' then runAction (label c) (command c) (ov\<lparr>confirm := None\<rparr>)
             else if data = ''n'' \<or> data = ''N'' then
               ov\<lparr>confirm := None, footerMessage := Some ''Cancelled''\<rparr>
             else ov
         | None \<Rightarrow> idle data ov))"

subsection \<open>The constructor\<close>

text \<open>The manager as its constructor leaves it.\<close>

definition new_manager :: LoopManager where
  "new_manager = \<lparr> loops = [], focusedIndex = 0, pollInFlight = False,
                    consecutivePollFailures = 0, lastPollError = None \<rparr>"

subsection \<open>Notions used in the proofs\<close>

text \<open>
  Invariants of the loop over the candidates, relative to the map \<open>B0\<close> it starts from:
  keys are unique and each entry is keyed by its identity; an entry is an untouched entry of
  \<open>B0\<close> or was written in this pass; every entry of \<open>B0\<close> is still present under its key,
  or under \<^verbatim>\<open>(primary)\<close> after a re-keying, with its source and session.
\<close>

definition wf_map :: "LoopMap \<Rightarrow> bool" where
  "wf_map B = (distinct (map fst B) \<and> (\<forall>e\<in>set B. id' (snd e) = fst e))"

definition fresh_inv :: "int \<Rightarrow> LoopMap \<Rightarrow> LoopMap \<times> string set \<Rightarrow> bool" where
  "fresh_inv now B0 s =
     (\<forall>e\<in>set (fst s). (e \<in> set B0 \<and> fst e \<notin> snd s) \<or>
         (fst e \<in> snd s \<and> \<not> removed (snd e) \<and> lastSeenAt (snd e) = now))"

definition track_inv :: "LoopMap \<Rightarrow> LoopMap \<times> string set \<Rightarrow> bool" where
  "track_inv B0 s =
     (\<forall>e\<in>set B0. \<exists>e'\<in>set (fst s).
         source (snd e') = source (snd e) \<and> ptySession (snd e') = ptySession (snd e) \<and>
         ((fst e' = fst e \<and> (e' = e \<or> fst e \<in> snd s)) \<or>
          (fst e' = ''(primary)'' \<and> source (snd e) = Tool \<and> startsWith (fst e) ''primary-'' \<and>
           ''(primary)'' \<in> snd s)))"

text \<open>Keys: none is lost but by the one re-keying of a pass.\<close>

definition keys_inv :: "LoopMap \<Rightarrow> LoopMap \<Rightarrow> bool" where
  "keys_inv B0 B =
     (length B0 \<le> length B \<and>
      (filter (\<lambda>k. k \<notin> fst ` set B) (map fst B0) = [] \<or>
       (''(primary)'' \<in> fst ` set B \<and>
        (\<exists>ke. startsWith ke ''primary-'' \<and> filter (\<lambda>k. k \<notin> fst ` set B) (map fst B0) = [ke]))))"

definition loop_inv :: "int \<Rightarrow> LoopMap \<Rightarrow> LoopMap \<times> string set \<Rightarrow> bool" where
  "loop_inv now B0 s =
     (wf_map (fst s) \<and> fresh_inv now B0 s \<and> track_inv B0 s \<and> keys_inv B0 (fst s))"

text \<open>The map \<^verbatim>\<open>byId\<close> after the marking loop.\<close>

definition merged_map :: "int \<Rightarrow> TrackedLoop list \<Rightarrow> LoopManager \<Rightarrow> LoopMap" where
  "merged_map now polled st =
     (let s = foldl (merge_step now)
                (map_from_entries (map (\<lambda>l. (id' l, l)) (loops st)), {}) polled
      in mark_removed (snd s) (fst s))"

text \<open>
  A record of \<open>B0\<close> all of whose candidates carry no usable directory keeps its directory
  (and source) under its key, unless it is a tool-started primary loop and \<^verbatim>\<open>(primary)\<close> has
  been polled.
\<close>

definition dir_inv :: "TrackedLoop list \<Rightarrow> LoopMap \<Rightarrow> LoopMap \<times> string set \<Rightarrow> bool" where
  "dir_inv P B0 s =
     (\<forall>e\<in>set B0. (\<forall>x\<in>set P. id' x = fst e \<longrightarrow> \<not> usable_directory (directory x)) \<longrightarrow>
        (\<exists>e'\<in>set (fst s). fst e' = fst e \<and> directory (snd e') = directory (snd e) \<and>
            source (snd e') = source (snd e)) \<or>
        (source (snd e) = Tool \<and> startsWith (fst e) ''primary-'' \<and> ''(primary)'' \<in> snd s))"

text \<open>The identities of a poll result in the order of their first occurrence.\<close>

definition poll_order :: "string list \<Rightarrow> string list" where
  "poll_order ks = foldl set_add [] ks"

text \<open>A tool-sourced entry is keyed by an identity of \<open>K0\<close> or by \<^verbatim>\<open>(primary)\<close>.\<close>

definition tool_keys_inv :: "string set \<Rightarrow> LoopMap \<Rightarrow> bool" where
  "tool_keys_inv K0 B = (\<forall>e\<in>set B. source (snd e) = Tool \<longrightarrow> fst e \<in> K0 \<or> fst e = ''(primary)'')"

text \<open>The entries keyed by a \<^verbatim>\<open>primary-\<close> identity, in order.\<close>

definition primary_entries :: "LoopMap \<Rightarrow> LoopMap" where
  "primary_entries B = filter (\<lambda>e. startsWith (fst e) ''primary-'') B"

text \<open>The entry keyed \<^verbatim>\<open>(primary)\<close> is tool-sourced and holds the session \<open>p\<close>.\<close>

definition primary_inv :: "PtySession option \<Rightarrow> LoopMap \<Rightarrow> bool" where
  "primary_inv p B = (\<exists>v. (''(primary)'', v) \<in> set B \<and> source v = Tool \<and> ptySession v = p)"

text \<open>
  The candidates of one identity, and the record that results from updating \<open>e\<close> with a
  sequence of candidates in turn; its directory and worktree.
\<close>

definition same_id :: "string \<Rightarrow> TrackedLoop list \<Rightarrow> TrackedLoop list" where
  "same_id k P = filter (\<lambda>x. id' x = k) P"

definition merge_seq :: "int \<Rightarrow> TrackedLoop \<Rightarrow> TrackedLoop list \<Rightarrow> TrackedLoop" where
  "merge_seq now e ys = foldl (merge_existing now) e ys"

definition dir_seq :: "string option \<Rightarrow> TrackedLoop list \<Rightarrow> string option" where
  "dir_seq d ys = foldl (\<lambda>d y. if usable_directory (directory y) then directory y else d) d ys"

definition wt_seq :: "string option \<Rightarrow> TrackedLoop list \<Rightarrow> string option" where
  "wt_seq w ys = foldl (\<lambda>w y. case worktree y of None \<Rightarrow> w | Some z \<Rightarrow> Some z) w ys"

text \<open>A record that a pass at time \<open>now\<close> has built from the candidates \<open>ys\<close>.\<close>

definition absorbs :: "int \<Rightarrow> TrackedLoop \<Rightarrow> TrackedLoop list \<Rightarrow> bool" where
  "absorbs now v ys =
     ((\<exists>e. v = merge_seq now e ys) \<or>
      (\<exists>y ys'. ys = y # ys' \<and> v = merge_seq now (merge_new now y) ys'))"

text \<open>The record of a loop that the second merge (at time \<open>now\<close>) has observed again.\<close>

definition observed_again :: "int \<Rightarrow> TrackedLoop list \<Rightarrow> TrackedLoop \<Rightarrow> TrackedLoop" where
  "observed_again now P l = (if id' l \<in> id' ` set P then l\<lparr>lastSeenAt := now\<rparr> else l)"

text \<open>
  The identities of the collection are unique, and the cursor lies within the active list
  (it is 0 when the active list is empty).
\<close>

definition manager_inv :: "LoopManager \<Rightarrow> bool" where
  "manager_inv st =
     (distinct (map id' (loops st)) \<and> 0 \<le> focusedIndex st \<and>
      focusedIndex st \<le> max 0 (int (length (getLoops False st)) - 1))"

text \<open>
  The states of a manager: the constructor's state, and what the methods of the class make
  of such a state. \<^verbatim>\<open>poll\<close> appears as a whole and in its two parts, before and after its
  awaits; \<^verbatim>\<open>focusedIndex\<close> and \<^verbatim>\<open>loops\<close> are private, so nothing else writes them.
\<close>

inductive reachable :: "LoopManager \<Rightarrow> bool" where
  constructed: "reachable new_manager"
| read_focus: "reachable st \<Longrightarrow> reachable (fst (getFocused st))"
| cycled: "reachable st \<Longrightarrow> d = 1 \<or> d = - 1 \<Longrightarrow> reachable (fst (cycleFocus d st))"
| focus_set: "reachable st \<Longrightarrow> reachable (setFocusById i st)"
| upserted: "reachable st \<Longrightarrow> reachable (upsertToolLoop now p st)"
| merged: "reachable st \<Longrightarrow> reachable (mergePolled now P st)"
| polled: "reachable st \<Longrightarrow> reachable (fst (poll env st))"
| poll_entered: "reachable st \<Longrightarrow> poll_enter st = Some st' \<Longrightarrow> reachable st'"
| poll_finished: "reachable st \<Longrightarrow> reachable (fst (poll_finish env st))"

subsection \<open>Sample records and managers\<close>

text \<open>Concrete values at which the theorems below are evaluated.\<close>

definition mk_loop :: "string \<Rightarrow> LoopSource \<Rightarrow> string option \<Rightarrow> PtySession option \<Rightarrow> bool \<Rightarrow> TrackedLoop" where
  "mk_loop i src d s r =
     \<lparr> id' = i, pid = None, directory = d, worktree = None, status = ''running'',
       iteration = 0, maxIterations = 0, hat = None, elapsedSecs = 0, backend = None,
       source = src, ptySession = s, removed = r, lastSeenAt = 0 \<rparr>"

definition mk_manager :: "TrackedLoop list \<Rightarrow> int \<Rightarrow> LoopManager" where
  "mk_manager ls f = \<lparr> loops = ls, focusedIndex = f, pollInFlight = False,
      consecutivePollFailures = 0, lastPollError = None \<rparr>"

definition ex_two :: "int \<Rightarrow> LoopManager" where
  "ex_two f = mk_manager [mk_loop ''a'' Discovered None None False,
                          mk_loop ''b'' Discovered None None False] f"

definition no_idle :: "string \<Rightarrow> Overlay \<Rightarrow> Overlay" where
  "no_idle data ov = ov"

definition escape_only :: "string \<Rightarrow> KeyId \<Rightarrow> bool" where
  "escape_only data k = (k = KeyEscape \<and> data = [CHR 0x1B])"

definition pending_stop :: Overlay where
  "pending_stop =
     \<lparr> manager = ex_two 0, session = None, sessionEphemeral = False, view = Pty,
       textScroll = 0,
       confirm = Some \<lparr> action = ''stop'', command = [''loops'', ''stop'', ''a''], label = ''Stop'' \<rparr>,
       footerMessage = None, effects = [] \<rparr>"

definition ex_start :: StartParams where
  "ex_start = \<lparr> sp_id = ''a'', sp_pid = 42, sp_directory = ''/p'', sp_worktree = None,
                 sp_ptySession = 7 \<rparr>"

definition ex_polled :: LoopManager where
  "ex_polled =
     mk_manager [(mk_loop ''a'' Discovered (Some ''/q'') None True)
                   \<lparr>status := ''completed'', iteration := 3, maxIterations := 10,
                    hat := Some ''builder'', elapsedSecs := 120, backend := Some ''claude''\<rparr>,
                 mk_loop ''b'' Discovered None None False] 0"

definition env_fail :: PollEnv where
  "env_fail = \<lparr> exec = (\<lambda>d. ExecResult 1 StdoutEmpty), cwd = ''/w'', clock = 5 \<rparr>"

definition env_ok :: PollEnv where
  "env_ok = \<lparr> exec = (\<lambda>d. ExecResult 0 StdoutEmpty), cwd = ''/w'', clock = 5 \<rparr>"

definition env_throw :: PollEnv where
  "env_throw = \<lparr> exec = (\<lambda>d. ExecThrows ''aborted''), cwd = ''/w'', clock = 5 \<rparr>"

text \<open>A tool-started primary loop, a discovered worker, and the candidate that re-keys.\<close>

definition ex_tool_primary :: TrackedLoop where
  "ex_tool_primary = mk_loop ''primary-1'' Tool (Some ''/p'') (Some 7) False"

definition ex_worker :: TrackedLoop where
  "ex_worker = mk_loop ''w1'' Discovered (Some ''/p'') None False"

definition ex_primary_candidate :: TrackedLoop where
  "ex_primary_candidate = mk_loop ''(primary)'' Discovered (Some ''/p'') None False"

definition ex_manager :: LoopManager where
  "ex_manager = mk_manager [ex_tool_primary, ex_worker] 0"

text \<open>A candidate and a raw poll record that carry a display value for the directory.\<close>

definition ex_inplace_candidate :: TrackedLoop where
  "ex_inplace_candidate = mk_loop ''w1'' Discovered (Some ''(in-place)'') None False"

definition ex_raw :: json where
  "ex_raw = JObj [(''id'', JStr ''w1''), (''directory'', JStr ''(in-place)''),
                  (''location'', JStr ''chipper-crane'')]"

text \<open>A poll result that shows two new identities around a known one, one of them twice.\<close>

definition ex_poll :: "TrackedLoop list" where
  "ex_poll = [mk_loop ''w9'' Discovered None None False, mk_loop ''w1'' Discovered None None False,
              mk_loop ''w8'' Discovered None None False, mk_loop ''w9'' Discovered None None False]"

text \<open>Two tool-started primary loops in one directory.\<close>

definition ex_tool_primary2 :: TrackedLoop where
  "ex_tool_primary2 = mk_loop ''primary-2'' Tool (Some ''/p'') (Some 8) False"

definition ex_two_primaries :: LoopManager where
  "ex_two_primaries = mk_manager [ex_tool_primary, ex_tool_primary2] 0"

text \<open>A poll result that lists the tool-started primary loop under both of its identities.\<close>

definition ex_poll_both :: "TrackedLoop list" where
  "ex_poll_both = [mk_loop ''primary-1'' Discovered (Some ''/p'') None False, ex_primary_candidate]"

definition ex_one_tool :: LoopManager where
  "ex_one_tool = mk_manager [ex_tool_primary] 0"

text \<open>
  Two loops found in two project directories, after three failed polls; and sources that
  exit with code 0 and print text that is no JSON, that reject after another has succeeded,
  and of which one prints a record and the other text that is no JSON.
\<close>

definition ex_two_projects :: LoopManager where
  "ex_two_projects =
     (mk_manager [mk_loop ''a'' Discovered (Some ''/p'') None False,
                  mk_loop ''b'' Discovered (Some ''/q'') None False] 1)
       \<lparr>consecutivePollFailures := 3, lastPollError := Some ''all poll attempts failed''\<rparr>"

definition env_malformed :: PollEnv where
  "env_malformed = \<lparr> exec = (\<lambda>d. ExecResult 0 StdoutMalformed), cwd = ''/w'', clock = 5 \<rparr>"

definition env_late_throw :: PollEnv where
  "env_late_throw =
     \<lparr> exec = (\<lambda>d. if d = ''/p'' then ExecResult 0 StdoutEmpty else ExecThrows ''aborted''),
       cwd = ''/w'', clock = 5 \<rparr>"

definition env_mixed :: PollEnv where
  "env_mixed =
     \<lparr> exec = (\<lambda>d. if d = ''/p'' then ExecResult 0 (StdoutJson (JArr [ex_raw]))
                    else ExecResult 0 StdoutMalformed),
       cwd = ''/w'', clock = 5 \<rparr>"

text \<open>A manager that has started two loops and moved the focus to the second.\<close>

definition ex_reached :: LoopManager where
  "ex_reached =
     fst (cycleFocus 1 (upsertToolLoop 6 (ex_start\<lparr>sp_id := ''b''\<rparr>)
                          (upsertToolLoop 5 ex_start new_manager)))"

section \<open>Focus tracking\<close>

lemmas ev = mk_manager_def mk_loop_def cycleFocus_def getFocused_def getLoops_def
  js_rem_def nth_opt_def Let_def

lemma js_rem_nonneg: "0 \<le> a \<Longrightarrow> js_rem a n = a mod n"
  by (simp add: js_rem_def)

lemma cycle_empty: "getLoops False st = [] \<Longrightarrow> cycleFocus d st = (st\<lparr>focusedIndex := 0\<rparr>, None)"
  by (simp add: cycleFocus_def)

lemma getLoops_focus [simp]: "getLoops b (st\<lparr>focusedIndex := f\<rparr>) = getLoops b st"
  by (simp add: getLoops_def)

lemma cycle_fwd: 
  assumes "getLoops False st \<noteq> []" "0 \<le> focusedIndex st" "focusedIndex st < int (length (getLoops False st))"
  shows "cycleFocus 1 st = (st\<lparr>focusedIndex := (focusedIndex st + 1) mod int (length (getLoops False st))\<rparr>,
     Some (getLoops False st ! nat ((focusedIndex st + 1) mod int (length (getLoops False st)))))"
  using assms by (simp add: cycleFocus_def Let_def js_rem_nonneg nth_opt_def)

lemma cycle_back: 
  assumes "getLoops False st \<noteq> []" "0 \<le> focusedIndex st" "focusedIndex st < int (length (getLoops False st))"
  shows "cycleFocus (-1) st = (st\<lparr>focusedIndex := (focusedIndex st - 1) mod int (length (getLoops False st))\<rparr>,
     Some (getLoops False st ! nat ((focusedIndex st - 1) mod int (length (getLoops False st)))))"
  using assms by (simp add: cycleFocus_def Let_def js_rem_nonneg nth_opt_def)

lemma getFocused_in_range:
  assumes "getLoops False st \<noteq> []" "0 \<le> focusedIndex st" "focusedIndex st < int (length (getLoops False st))"
  shows "getFocused st = (st, Some (getLoops False st ! nat (focusedIndex st)))"
  using assms by (simp add: getFocused_def Let_def nth_opt_def min_def max_def)

lemma mod_roundtrip: "0 \<le> (f::int) \<Longrightarrow> f < n \<Longrightarrow> ((f + 1) mod n - 1) mod n = f"
proof (cases "f + 1 < n")
  case True
  assume "0 \<le> f" "f < n"
  with True show ?thesis by simp
next
  case False
  assume a: "0 \<le> f" "f < n"
  with False have e: "f + 1 = n" by simp
  have "0 < n" using a by simp
  then have "- 1 mod n = n - 1" by (rule zmod_minus1)
  then show ?thesis using e by simp
qed

lemma roundtrip_in_range:
  assumes "getLoops False st \<noteq> []" "0 \<le> focusedIndex st" "focusedIndex st < int (length (getLoops False st))"
  shows "cycleFocus (-1) (fst (cycleFocus 1 st)) = getFocused st"
proof -
  let ?n = "int (length (getLoops False st))"
  let ?st1 = "st\<lparr>focusedIndex := (focusedIndex st + 1) mod ?n\<rparr>"
  have n: "0 < ?n" using assms by simp
  have 1: "fst (cycleFocus 1 st) = ?st1" using cycle_fwd[OF assms] by simp
  have r: "0 \<le> focusedIndex ?st1" "focusedIndex ?st1 < int (length (getLoops False ?st1))"
    using n by simp_all
  have ne: "getLoops False ?st1 \<noteq> []" using assms by simp
  show ?thesis
    unfolding 1 cycle_back[OF ne r] getFocused_in_range[OF assms]
    using mod_roundtrip[OF assms(2,3)] by simp
qed


lemma getFocused_clamped:
  assumes "getLoops False st \<noteq> []"
  shows "\<exists>f. 0 \<le> f \<and> f < int (length (getLoops False st)) \<and>
             getFocused st = (st\<lparr>focusedIndex := f\<rparr>, Some (getLoops False st ! nat f))"
proof -
  let ?f = "min (max (focusedIndex st) 0) (int (length (getLoops False st)) - 1)"
  have n: "0 < int (length (getLoops False st))" using assms by simp
  then have r: "0 \<le> ?f" "?f < int (length (getLoops False st))" by auto
  have "getFocused st = (st\<lparr>focusedIndex := ?f\<rparr>, Some (getLoops False st ! nat ?f))"
    using assms r by (simp add: getFocused_def Let_def nth_opt_def)
  with r show ?thesis by blast
qed

lemma roundtrip_after_read:
  assumes "getLoops False st \<noteq> []"
  shows "cycleFocus (-1) (fst (cycleFocus 1 (fst (getFocused st)))) = getFocused st"
proof -
  from getFocused_clamped[OF assms] obtain f where
    f: "0 \<le> f" "f < int (length (getLoops False st))"
    and g: "getFocused st = (st\<lparr>focusedIndex := f\<rparr>, Some (getLoops False st ! nat f))"
    by blast
  let ?st' = "st\<lparr>focusedIndex := f\<rparr>"
  have ne: "getLoops False ?st' \<noteq> []" using assms by simp
  have r: "0 \<le> focusedIndex ?st'" "focusedIndex ?st' < int (length (getLoops False ?st'))"
    using f by simp_all
  have "cycleFocus (-1) (fst (cycleFocus 1 ?st')) = getFocused ?st'"
    by (rule roundtrip_in_range[OF ne r])
  also have "getFocused ?st' = (?st', Some (getLoops False st ! nat f))"
    using getFocused_in_range[OF ne r] by simp
  finally show ?thesis using g by simp
qed


text \<open>
  The record type of the model also has cursors outside the active list, which no method of
  the manager produces (see the last two sections). There \<^verbatim>\<open>cycleFocus\<close>, which reduces the cursor
  modulo \<open>n\<close> without clamping it, and \<^verbatim>\<open>getFocused\<close>, which clamps it, disagree: with two
  active loops and the cursor at 2 the latter reports the second loop and the round trip ends
  on the first.
\<close>

lemma cycleFocus_unclamped:
  "\<not> manager_inv (ex_two 2) \<and>
   snd (getFocused (ex_two 2)) = Some (mk_loop ''b'' Discovered None None False) \<and>
   snd (cycleFocus (- 1) (fst (cycleFocus 1 (ex_two 2)))) = Some (mk_loop ''a'' Discovered None None False)"
  by (simp add: ev ex_two_def manager_inv_def)

section \<open>Starting a loop from the tool\<close>

lemma findIndex_Some:
  "findIndex p xs = Some i \<Longrightarrow> i < length xs \<and> p (xs ! i) \<and> (\<forall>j<i. \<not> p (xs ! j))"
proof (induction xs arbitrary: i)
  case Nil
  then show ?case by simp
next
  case (Cons x xs)
  show ?case
  proof (cases "p x")
    case True
    with Cons.prems show ?thesis by simp
  next
    case False
    with Cons.prems obtain k where k: "findIndex p xs = Some k" "i = Suc k"
      by (auto split: option.splits)
    from Cons.IH[OF k(1)] False k(2) show ?thesis
      by (auto simp: nth_Cons split: nat.splits)
  qed
qed

lemma findIndex_None: "findIndex p xs = None \<longleftrightarrow> (\<forall>x\<in>set xs. \<not> p x)"
  by (induction xs) (auto split: option.splits)

lemma findIndex_exists: "x \<in> set xs \<Longrightarrow> p x \<Longrightarrow> \<exists>i. findIndex p xs = Some i"
  using findIndex_None[of p xs] by (cases "findIndex p xs") auto

text \<open>
  Claim C10. When a record with the identity of the started loop exists, \<^verbatim>\<open>upsertToolLoop\<close>
  replaces the first such record in place by a record whose status is \<^verbatim>\<open>running\<close>, whose
  iteration, maxIterations and elapsedSecs are 0 and whose hat and backend are null, whatever
  a poll had filled in; the source is \<^verbatim>\<open>tool\<close>, the session is the supplied one, removed is
  false and lastSeenAt is the current time. Identity, pid, directory and worktree are those
  of the call.
\<close>

theorem upsertToolLoop_existing:
  assumes "sp_id p \<in> set (map id' (loops st))"
  shows "\<exists>i r. findIndex (\<lambda>l. id' l = sp_id p) (loops st) = Some i \<and>
           i < length (loops st) \<and> id' (loops st ! i) = sp_id p \<and>
           upsertToolLoop now p st = st\<lparr>loops := (loops st)[i := r]\<rparr> \<and>
           loops (upsertToolLoop now p st) ! i = r \<and>
           id' r = sp_id p \<and> pid r = Some (sp_pid p) \<and> directory r = Some (sp_directory p) \<and>
           worktree r = sp_worktree p \<and>
           status r = ''running'' \<and> iteration r = 0 \<and> maxIterations r = 0 \<and>
           elapsedSecs r = 0 \<and> hat r = None \<and> backend r = None \<and>
           source r = Tool \<and> ptySession r = Some (sp_ptySession p) \<and>
           removed r = False \<and> lastSeenAt r = now"
proof -
  from assms obtain x where "x \<in> set (loops st)" "id' x = sp_id p" by auto
  then obtain i where i: "findIndex (\<lambda>l. id' l = sp_id p) (loops st) = Some i"
    using findIndex_exists[of x "loops st" "\<lambda>l. id' l = sp_id p"] by blast
  from findIndex_Some[OF i] have b: "i < length (loops st)" "id' (loops st ! i) = sp_id p"
    by simp_all
  let ?r = "upsert_existing now p (loops st ! i)"
  have u: "upsertToolLoop now p st = st\<lparr>loops := (loops st)[i := ?r]\<rparr>"
    using i by (simp add: upsertToolLoop_def)
  have n: "loops (upsertToolLoop now p st) ! i = ?r" using u b by simp
  show ?thesis
    apply (rule exI[of _ i], rule exI[of _ ?r])
    using i b u n by (simp add: upsert_existing_def tool_record_def)
qed


theorem upsertToolLoop_existing_witness:
  "sp_id ex_start \<in> set (map id' (loops ex_polled)) \<and>
   loops (upsertToolLoop 9 ex_start ex_polled) =
     [tool_record 9 ex_start, mk_loop ''b'' Discovered None None False] \<and>
   status (tool_record 9 ex_start) = ''running'' \<and> iteration (tool_record 9 ex_start) = 0 \<and>
   hat (tool_record 9 ex_start) = None \<and> removed (tool_record 9 ex_start) = False"
proof -
  have h: "sp_id ex_start \<in> set (map id' (loops ex_polled))"
    by (simp add: ex_start_def ex_polled_def mk_manager_def mk_loop_def)
  from upsertToolLoop_existing[OF h, of 9] obtain i r where
    i: "findIndex (\<lambda>l. id' l = sp_id ex_start) (loops ex_polled) = Some i"
    and u: "upsertToolLoop 9 ex_start ex_polled = ex_polled\<lparr>loops := (loops ex_polled)[i := r]\<rparr>"
    and f: "id' r = sp_id ex_start" "pid r = Some (sp_pid ex_start)"
      "directory r = Some (sp_directory ex_start)" "worktree r = sp_worktree ex_start"
      "status r = ''running''" "iteration r = 0" "maxIterations r = 0" "elapsedSecs r = 0"
      "hat r = None" "backend r = None" "source r = Tool"
      "ptySession r = Some (sp_ptySession ex_start)" "removed r = False" "lastSeenAt r = 9"
    by blast
  have i0: "i = 0" using i by (simp add: ex_start_def ex_polled_def mk_manager_def mk_loop_def)
  have r: "r = tool_record 9 ex_start" using f by (simp add: tool_record_def)
  show ?thesis using h u i0 r
    by (simp add: ex_polled_def mk_manager_def tool_record_def)
qed

section \<open>Confirmation of destructive actions\<close>

text \<open>
  Claim C9 (as amended). While a confirmation is pending, the input \<^verbatim>\<open>y\<close> or \<^verbatim>\<open>Y\<close> starts the
  pending command once and clears the pending state; Escape, \<^verbatim>\<open>n\<close> and \<^verbatim>\<open>N\<close> clear the pending
  state, show \<^verbatim>\<open>Cancelled\<close> and start nothing; every other input is ignored: the overlay is
  unchanged, the confirmation stays pending and nothing is started.
\<close>

theorem handleInput_confirmation:
  assumes "confirm ov = Some c"
  shows
   "(\<not> matchesKey data KeyEscape \<and> (data = ''y'' \<or> data = ''Y'') \<longrightarrow>
       handleInput matchesKey idle data ov = runAction (label c) (command c) (ov\<lparr>confirm := None\<rparr>) \<and>
       confirm (handleInput matchesKey idle data ov) = None \<and>
       effects (handleInput matchesKey idle data ov) = effects ov @ [RunAction (label c) (command c)]) \<and>
    (matchesKey data KeyEscape \<or> data = ''n'' \<or> data = ''N'' \<longrightarrow>
       handleInput matchesKey idle data ov = ov\<lparr>confirm := None, footerMessage := Some ''Cancelled''\<rparr> \<and>
       confirm (handleInput matchesKey idle data ov) = None \<and>
       effects (handleInput matchesKey idle data ov) = effects ov) \<and>
    (\<not> matchesKey data KeyEscape \<and> data \<notin> {''y'', ''Y'', ''n'', ''N''} \<longrightarrow>
       handleInput matchesKey idle data ov = ov)"
  using assms by (simp add: handleInput_def runAction_def)

theorem handleInput_confirmation_witness:
  "effects (handleInput escape_only no_idle ''y'' pending_stop) = [RunAction ''Stop'' [''loops'', ''stop'', ''a'']] \<and>
   confirm (handleInput escape_only no_idle ''y'' pending_stop) = None \<and>
   confirm (handleInput escape_only no_idle ''n'' pending_stop) = None \<and>
   effects (handleInput escape_only no_idle ''n'' pending_stop) = [] \<and>
   confirm (handleInput escape_only no_idle [CHR 0x1B] pending_stop) = None \<and>
   effects (handleInput escape_only no_idle [CHR 0x1B] pending_stop) = [] \<and>
   handleInput escape_only no_idle ''x'' pending_stop = pending_stop"
proof -
  have c: "confirm pending_stop = Some \<lparr> action = ''stop'', command = [''loops'', ''stop'', ''a''], label = ''Stop'' \<rparr>"
    by (simp add: pending_stop_def)
  have e: "effects pending_stop = []" by (simp add: pending_stop_def)
  show ?thesis
    using handleInput_confirmation[OF c, of escape_only "''y''" no_idle]
      handleInput_confirmation[OF c, of escape_only "''n''" no_idle]
      handleInput_confirmation[OF c, of escape_only "[CHR 0x1B]" no_idle]
      handleInput_confirmation[OF c, of escape_only "''x''" no_idle] e
    by (simp add: escape_only_def runAction_def)
qed

text \<open>
  Claim C9 as stated fails for an input that is neither affirmative nor a cancel key: the
  confirmation block ends in a bare \<^verbatim>\<open>return\<close>, so the pending state is kept.
\<close>

theorem handleInput_other_input_counterexample:
  "confirm pending_stop \<noteq> None \<and> \<not> escape_only ''x'' KeyEscape \<and>
   confirm (handleInput escape_only no_idle ''x'' pending_stop) \<noteq> None"
  by (simp add: handleInput_def pending_stop_def escape_only_def)

section \<open>Polling\<close>

lemma poll_loop_all_fail:
  "list_all (source_fails env) ds \<Longrightarrow> poll_loop env ds acc = Inr acc"
  by (induction ds arbitrary: acc) (auto simp: source_fails_def split: ExecOutcome.splits)

lemma poll_loop_returns:
  "list_all (source_returns env) ds \<Longrightarrow>
   \<exists>ps. poll_loop env ds acc = Inr (ps, snd acc \<or> list_ex (source_succeeds env) ds)"
proof (induction ds arbitrary: acc)
  case Nil
  then show ?case by (cases acc) simp
next
  case (Cons d ds)
  then obtain c out where e: "exec env d = ExecResult c out"
    by (auto simp: source_returns_def split: ExecOutcome.splits)
  from Cons.prems have r: "list_all (source_returns env) ds" by simp
  show ?case
  proof (cases "c = 0")
    case True
    then have s: "source_succeeds env d" using e by (simp add: source_succeeds_def)
    show ?thesis
    proof (cases "parseLoopsJson (clock env) out")
      case (Inl err)
      from Cons.IH[OF r, of "(fst acc, True)"] show ?thesis
        using e True Inl s by simp
    next
      case (Inr parsed)
      from Cons.IH[OF r, of "(fst acc @ map (\<lambda>l. if \<not> truthy (directory l) then l\<lparr>directory := Some d\<rparr> else l) parsed, True)"]
      show ?thesis using e True Inr s by simp
    qed
  next
    case False
    then have s: "\<not> source_succeeds env d" using e by (simp add: source_succeeds_def)
    from Cons.IH[OF r, of acc] show ?thesis using e False s by simp
  qed
qed

lemma poll_not_in_flight:
  "\<not> pollInFlight st \<Longrightarrow> poll env st = poll_finish env (st\<lparr>pollInFlight := True\<rparr>)"
  by (simp add: poll_def poll_enter_def)

lemma poll_dirs_flag [simp]: "poll_dirs wd (st\<lparr>pollInFlight := b\<rparr>) = poll_dirs wd st"
  by (simp add: poll_dirs_def)

lemma poll_total_failure:
  assumes "\<not> pollInFlight st" "list_all (source_fails env) (poll_dirs (cwd env) st)"
  shows "poll env st =
     (st\<lparr>consecutivePollFailures := consecutivePollFailures st + 1,
         lastPollError := Some ''all poll attempts failed''\<rparr>, None)"
  using assms poll_loop_all_fail[OF assms(2), of "([], False)"]
  by (simp add: poll_not_in_flight poll_finish_def poll_body_def Let_def)

lemma poll_success:
  assumes "\<not> pollInFlight st" "list_all (source_returns env) (poll_dirs (cwd env) st)"
    "list_ex (source_succeeds env) (poll_dirs (cwd env) st)"
  shows "consecutivePollFailures (fst (poll env st)) = 0 \<and>
         lastPollError (fst (poll env st)) = None \<and>
         snd (poll env st) = Some (getLoops False (fst (poll env st)))"
proof -
  from poll_loop_returns[OF assms(2), of "([], False)"] assms(3)
  obtain ps where "poll_loop env (poll_dirs (cwd env) st) ([], False) = Inr (ps, True)" by auto
  then show ?thesis using assms(1)
    by (simp add: poll_not_in_flight poll_finish_def poll_body_def Let_def getLoops_def)
qed

lemma poll_finish_clears: "\<not> pollInFlight (fst (poll_finish env st))"
  by (simp add: poll_finish_def Let_def)

lemma poll_rejected:
  assumes "\<not> pollInFlight st" "poll_loop env (poll_dirs (cwd env) st) ([], False) = Inl msg"
  shows "poll env st =
     (st\<lparr>consecutivePollFailures := consecutivePollFailures st + 1, lastPollError := Some msg\<rparr>, None)"
  using assms by (simp add: poll_not_in_flight poll_finish_def poll_body_def Let_def)

lemma poll_loop_closed:
  "list_all (source_returns env) ds \<Longrightarrow>
   poll_loop env ds acc =
     Inr (fst acc @ concat (map (poll_contribution env) ds),
          snd acc \<or> list_ex (source_succeeds env) ds)"
proof (induction ds arbitrary: acc)
  case Nil
  then show ?case by simp
next
  case (Cons d ds)
  from Cons.prems have r: "list_all (source_returns env) ds" by simp
  from Cons.prems obtain c out where e: "exec env d = ExecResult c out"
    by (auto simp: source_returns_def split: ExecOutcome.splits)
  show ?case
    using e by (auto simp: Cons.IH[OF r] poll_contribution_def source_succeeds_def split: sum.splits)
qed

lemma poll_loop_rejects:
  "find (\<lambda>d. \<not> source_returns env d) ds = Some d \<Longrightarrow> exec env d = ExecThrows msg \<Longrightarrow>
   poll_loop env ds acc = Inl msg"
proof (induction ds arbitrary: acc)
  case Nil
  then show ?case by simp
next
  case (Cons x ds)
  show ?case
  proof (cases "source_returns env x")
    case True
    then obtain c out where e: "exec env x = ExecResult c out"
      by (auto simp: source_returns_def split: ExecOutcome.splits)
    from True Cons.prems have f: "find (\<lambda>d. \<not> source_returns env d) ds = Some d" by simp
    show ?thesis using e Cons.IH[OF f Cons.prems(2)] by (simp split: sum.splits)
  next
    case False
    with Cons.prems have "x = d" by simp
    then show ?thesis using Cons.prems(2) by simp
  qed
qed

lemma poll_dirs_nonempty: "poll_dirs wd st \<noteq> []"
  by (simp add: poll_dirs_def Let_def)

lemma unparsable_returns: "source_unparsable env d \<Longrightarrow> source_returns env d \<and> source_succeeds env d"
  by (simp add: source_unparsable_def source_returns_def source_succeeds_def split: ExecOutcome.splits)

lemma unparsable_contribution: "source_unparsable env d \<Longrightarrow> poll_contribution env d = []"
  by (auto simp: source_unparsable_def poll_contribution_def split: ExecOutcome.splits sum.splits)

lemma poll_merges:
  assumes "\<not> pollInFlight st" "list_all (source_returns env) (poll_dirs (cwd env) st)"
    "list_ex (source_succeeds env) (poll_dirs (cwd env) st)"
  shows "fst (poll env st) =
     (mergePolled (clock env)
        (map snd (map_from_entries (map (\<lambda>l. (id' l, l))
           (concat (map (poll_contribution env) (poll_dirs (cwd env) st))))))
        (st\<lparr>pollInFlight := True\<rparr>))
       \<lparr>consecutivePollFailures := 0, lastPollError := None, pollInFlight := False\<rparr>"
  using assms(1,3) poll_loop_closed[OF assms(2), of "([], False)"]
  by (simp add: poll_not_in_flight poll_finish_def poll_body_def Let_def)

lemma poll_unparsable:
  assumes "\<not> pollInFlight st" "list_all (source_unparsable env) (poll_dirs (cwd env) st)"
  shows "fst (poll env st) =
     (mergePolled (clock env) [] (st\<lparr>pollInFlight := True\<rparr>))
       \<lparr>consecutivePollFailures := 0, lastPollError := None, pollInFlight := False\<rparr>"
proof -
  let ?ds = "poll_dirs (cwd env) st"
  have r: "list_all (source_returns env) ?ds" and a: "list_all (source_succeeds env) ?ds"
    using assms(2) unparsable_returns by (auto simp: list_all_iff)
  have s: "list_ex (source_succeeds env) ?ds"
    using a poll_dirs_nonempty[of "cwd env" st] by (cases ?ds) auto
  have c: "concat (map (poll_contribution env) ?ds) = []"
    using assms(2) unparsable_contribution by (auto simp: list_all_iff)
  show ?thesis using poll_merges[OF assms(1) r s] c by (simp add: map_from_entries_def)
qed

text \<open>
  Claim C6 (as amended). For a poll that is not blocked by the guard: when every queried
  source exits with a non-zero code, the poll adds one to \<^verbatim>\<open>consecutivePollFailures\<close>, records
  \<^verbatim>\<open>all poll attempts failed\<close>, returns null and changes nothing else, so the collection and
  the focus are the ones before. The same holds, with the message of the exception, as soon
  as one \<^verbatim>\<open>exec\<close> rejects, also after another source has succeeded. When no \<^verbatim>\<open>exec\<close> rejects
  and some source exits with code 0, the poll is a success whether or not the output parses:
  the records of the sources whose output parses are merged, the counter is 0 and the last
  error is null afterwards, and the active loops are returned. In particular, when every
  source exits with code 0 and prints output that does not parse, the poll merges the empty
  list.
\<close>

theorem poll_failure_accounting:
  assumes "\<not> pollInFlight st"
  shows
   "(list_all (source_fails env) (poll_dirs (cwd env) st) \<longrightarrow>
       poll env st =
         (st\<lparr>consecutivePollFailures := consecutivePollFailures st + 1,
             lastPollError := Some ''all poll attempts failed''\<rparr>, None)) \<and>
    (find (\<lambda>d. \<not> source_returns env d) (poll_dirs (cwd env) st) = Some d \<and>
     exec env d = ExecThrows msg \<longrightarrow>
       poll env st =
         (st\<lparr>consecutivePollFailures := consecutivePollFailures st + 1,
             lastPollError := Some msg\<rparr>, None)) \<and>
    (list_all (source_returns env) (poll_dirs (cwd env) st) \<and>
     list_ex (source_succeeds env) (poll_dirs (cwd env) st) \<longrightarrow>
       fst (poll env st) =
         (mergePolled (clock env)
            (map snd (map_from_entries (map (\<lambda>l. (id' l, l))
               (concat (map (poll_contribution env) (poll_dirs (cwd env) st))))))
            (st\<lparr>pollInFlight := True\<rparr>))
           \<lparr>consecutivePollFailures := 0, lastPollError := None, pollInFlight := False\<rparr> \<and>
       consecutivePollFailures (fst (poll env st)) = 0 \<and>
       lastPollError (fst (poll env st)) = None \<and>
       snd (poll env st) = Some (getLoops False (fst (poll env st)))) \<and>
    (list_all (source_unparsable env) (poll_dirs (cwd env) st) \<longrightarrow>
       fst (poll env st) =
         (mergePolled (clock env) [] (st\<lparr>pollInFlight := True\<rparr>))
           \<lparr>consecutivePollFailures := 0, lastPollError := None, pollInFlight := False\<rparr>)"
proof (intro conjI impI)
  assume "list_all (source_fails env) (poll_dirs (cwd env) st)"
  then show "poll env st =
         (st\<lparr>consecutivePollFailures := consecutivePollFailures st + 1,
             lastPollError := Some ''all poll attempts failed''\<rparr>, None)"
    by (rule poll_total_failure[OF assms])
next
  assume "find (\<lambda>d. \<not> source_returns env d) (poll_dirs (cwd env) st) = Some d \<and>
     exec env d = ExecThrows msg"
  then have "poll_loop env (poll_dirs (cwd env) st) ([], False) = Inl msg"
    using poll_loop_rejects by blast
  then show "poll env st =
         (st\<lparr>consecutivePollFailures := consecutivePollFailures st + 1,
             lastPollError := Some msg\<rparr>, None)"
    by (rule poll_rejected[OF assms])
next
  assume a: "list_all (source_returns env) (poll_dirs (cwd env) st) \<and>
     list_ex (source_succeeds env) (poll_dirs (cwd env) st)"
  then show "fst (poll env st) =
         (mergePolled (clock env)
            (map snd (map_from_entries (map (\<lambda>l. (id' l, l))
               (concat (map (poll_contribution env) (poll_dirs (cwd env) st))))))
            (st\<lparr>pollInFlight := True\<rparr>))
           \<lparr>consecutivePollFailures := 0, lastPollError := None, pollInFlight := False\<rparr>"
    using poll_merges[OF assms] by blast
  from a show "consecutivePollFailures (fst (poll env st)) = 0"
    using poll_success[OF assms] by blast
  from a show "lastPollError (fst (poll env st)) = None"
    using poll_success[OF assms] by blast
  from a show "snd (poll env st) = Some (getLoops False (fst (poll env st)))"
    using poll_success[OF assms] by blast
next
  assume "list_all (source_unparsable env) (poll_dirs (cwd env) st)"
  then show "fst (poll env st) =
         (mergePolled (clock env) [] (st\<lparr>pollInFlight := True\<rparr>))
           \<lparr>consecutivePollFailures := 0, lastPollError := None, pollInFlight := False\<rparr>"
    by (rule poll_unparsable[OF assms])
qed

lemma ex_two_dirs: "poll_dirs ''/w'' (ex_two f) = [''/w'']"
  by (simp add: poll_dirs_def ex_two_def mk_manager_def mk_loop_def)

lemma ex_two_projects_dirs: "poll_dirs wd ex_two_projects = [''/p'', ''/q'']"
  by (simp add: poll_dirs_def ex_two_projects_def mk_manager_def mk_loop_def set_add_def)

theorem poll_failure_accounting_witness:
  "poll env_fail (ex_two 1) =
     ((ex_two 1)\<lparr>consecutivePollFailures := 1, lastPollError := Some ''all poll attempts failed''\<rparr>, None) \<and>
   poll env_late_throw ex_two_projects =
     (ex_two_projects\<lparr>consecutivePollFailures := 4, lastPollError := Some ''aborted''\<rparr>, None) \<and>
   consecutivePollFailures (fst (poll env_mixed ex_two_projects)) = 0 \<and>
   lastPollError (fst (poll env_mixed ex_two_projects)) = None \<and>
   map id' (loops (fst (poll env_mixed ex_two_projects))) = [''a'', ''b'', ''w1''] \<and>
   map removed (loops (fst (poll env_mixed ex_two_projects))) = [True, True, False] \<and>
   map removed (loops (fst (poll env_malformed ex_two_projects))) = [True, True]"
proof -
  let ?P = ex_two_projects
  have a: "\<not> pollInFlight (ex_two 1)" "\<not> pollInFlight ?P"
    by (simp_all add: ex_two_def ex_two_projects_def mk_manager_def)
  have c: "consecutivePollFailures (ex_two 1) = 0" "consecutivePollFailures ?P + 1 = 4"
    by (simp_all add: ex_two_def ex_two_projects_def mk_manager_def)
  have f: "list_all (source_fails env_fail) (poll_dirs (cwd env_fail) (ex_two 1))"
    by (simp add: env_fail_def ex_two_dirs source_fails_def)
  have t: "find (\<lambda>d. \<not> source_returns env_late_throw d) (poll_dirs (cwd env_late_throw) ?P) = Some ''/q'' \<and>
           exec env_late_throw ''/q'' = ExecThrows ''aborted''"
    by (simp add: env_late_throw_def ex_two_projects_dirs source_returns_def)
  have s: "list_all (source_returns env_mixed) (poll_dirs (cwd env_mixed) ?P) \<and>
           list_ex (source_succeeds env_mixed) (poll_dirs (cwd env_mixed) ?P)"
    by (simp add: env_mixed_def ex_two_projects_dirs source_returns_def source_succeeds_def)
  have u: "list_all (source_unparsable env_malformed) (poll_dirs (cwd env_malformed) ?P)"
    by (simp add: env_malformed_def ex_two_projects_dirs source_unparsable_def parseLoopsJson_def)
  note th = poll_failure_accounting
  have 1: "poll env_fail (ex_two 1) =
     ((ex_two 1)\<lparr>consecutivePollFailures := 1, lastPollError := Some ''all poll attempts failed''\<rparr>, None)"
    using th[OF a(1), of env_fail, THEN conjunct1, rule_format, OF f] c(1) by simp
  have 2: "poll env_late_throw ?P =
     (?P\<lparr>consecutivePollFailures := 4, lastPollError := Some ''aborted''\<rparr>, None)"
    using th[OF a(2), of env_late_throw "''/q''" "''aborted''", THEN conjunct2, THEN conjunct1, rule_format, OF t]
      c(2) by simp
  note m = th[OF a(2), of env_mixed, THEN conjunct2, THEN conjunct2, THEN conjunct1, rule_format, OF s]
  have 3: "consecutivePollFailures (fst (poll env_mixed ?P)) = 0"
    and 4: "lastPollError (fst (poll env_mixed ?P)) = None"
    using m by simp_all
  have r: "map id' (loops ((mergePolled (clock env_mixed)
            (map snd (map_from_entries (map (\<lambda>l. (id' l, l))
               (concat (map (poll_contribution env_mixed) (poll_dirs (cwd env_mixed) ?P))))))
            (?P\<lparr>pollInFlight := True\<rparr>))
           \<lparr>consecutivePollFailures := 0, lastPollError := None, pollInFlight := False\<rparr>)) = [''a'', ''b'', ''w1'']"
    "map removed (loops ((mergePolled (clock env_mixed)
            (map snd (map_from_entries (map (\<lambda>l. (id' l, l))
               (concat (map (poll_contribution env_mixed) (poll_dirs (cwd env_mixed) ?P))))))
            (?P\<lparr>pollInFlight := True\<rparr>))
           \<lparr>consecutivePollFailures := 0, lastPollError := None, pollInFlight := False\<rparr>)) = [True, True, False]"
    by code_simp+
  have 5: "map id' (loops (fst (poll env_mixed ?P))) = [''a'', ''b'', ''w1'']"
    and 6: "map removed (loops (fst (poll env_mixed ?P))) = [True, True, False]"
    unfolding m[THEN conjunct1] by (rule r)+
  have q: "map removed (loops ((mergePolled (clock env_malformed) [] (?P\<lparr>pollInFlight := True\<rparr>))
           \<lparr>consecutivePollFailures := 0, lastPollError := None, pollInFlight := False\<rparr>)) = [True, True]"
    by code_simp
  have 7: "map removed (loops (fst (poll env_malformed ?P))) = [True, True]"
    unfolding th[OF a(2), of env_malformed, THEN conjunct2, THEN conjunct2, THEN conjunct2, rule_format, OF u]
    by (rule q)
  show ?thesis by (intro conjI) (rule 1 2 3 4 5 6 7)+
qed

text \<open>
  Claim C6 as stated fails when failing includes malformed output: two discovered loops in
  two directories, three failed polls behind them, and both sources exit with code 0 and
  print text that is no JSON. The poll resets the counter, clears the last error, returns
  the (empty) list of active loops and marks both loops removed.
\<close>

theorem poll_malformed_output_counterexample:
  "poll_dirs (cwd env_malformed) ex_two_projects = [''/p'', ''/q''] \<and>
   exec env_malformed ''/p'' = ExecResult 0 StdoutMalformed \<and>
   exec env_malformed ''/q'' = ExecResult 0 StdoutMalformed \<and>
   parseLoopsJson (clock env_malformed) StdoutMalformed = Inl FailedToParse \<and>
   consecutivePollFailures ex_two_projects = 3 \<and>
   consecutivePollFailures (fst (poll env_malformed ex_two_projects)) = 0 \<and>
   lastPollError ex_two_projects = Some ''all poll attempts failed'' \<and>
   lastPollError (fst (poll env_malformed ex_two_projects)) = None \<and>
   snd (poll env_malformed ex_two_projects) = Some [] \<and>
   map removed (loops ex_two_projects) = [False, False] \<and>
   map removed (loops (fst (poll env_malformed ex_two_projects))) = [True, True]"
  by (intro conjI) code_simp+

text \<open>
  Claim C7. A call of \<^verbatim>\<open>poll\<close> that finds the in-flight flag set returns null at once and
  leaves the whole state (collection, focus, failure counter, last error) as it is. A call
  that finds it clear sets it before anything else, so that any call arriving while this one
  is outstanding is such a no-op, and the \<^verbatim>\<open>finally\<close> block clears it however the body ends:
  success, total failure or a rejected \<^verbatim>\<open>exec\<close> (which is how a cancellation surfaces).
\<close>

theorem poll_overlap_guard:
  "(pollInFlight st \<longrightarrow> poll env st = (st, None)) \<and>
   (\<not> pollInFlight st \<longrightarrow>
      poll_enter st = Some (st\<lparr>pollInFlight := True\<rparr>) \<and>
      poll env' (st\<lparr>pollInFlight := True\<rparr>) = (st\<lparr>pollInFlight := True\<rparr>, None) \<and>
      \<not> pollInFlight (fst (poll_finish env (st\<lparr>pollInFlight := True\<rparr>))) \<and>
      \<not> pollInFlight (fst (poll env st)))"
  by (simp add: poll_def poll_enter_def poll_finish_clears)

theorem poll_overlap_guard_witness:
  "poll env_ok ((ex_two 1)\<lparr>pollInFlight := True\<rparr>) = ((ex_two 1)\<lparr>pollInFlight := True\<rparr>, None) \<and>
   poll_enter (ex_two 1) = Some ((ex_two 1)\<lparr>pollInFlight := True\<rparr>) \<and>
   \<not> pollInFlight (fst (poll env_throw (ex_two 1))) \<and>
   \<not> pollInFlight (fst (poll env_fail (ex_two 1))) \<and>
   \<not> pollInFlight (fst (poll env_ok (ex_two 1)))"
proof -
  have a: "\<not> pollInFlight (ex_two 1)" by (simp add: ex_two_def mk_manager_def)
  have b: "pollInFlight ((ex_two 1)\<lparr>pollInFlight := True\<rparr>)" by simp
  show ?thesis
    using poll_overlap_guard[of "(ex_two 1)\<lparr>pollInFlight := True\<rparr>" env_ok]
      poll_overlap_guard[of "ex_two 1" env_throw] poll_overlap_guard[of "ex_two 1" env_fail]
      poll_overlap_guard[of "ex_two 1" env_ok] a b by simp
qed

section \<open>Merging poll results\<close>

subsection \<open>Map lemmas\<close>

lemma map_set_present:
  "k \<in> fst ` set m \<Longrightarrow> map_set k v m = map (\<lambda>e. if fst e = k then (k, v) else e) m"
  by (simp add: map_set_def map_has_def)

lemma map_set_absent: "k \<notin> fst ` set m \<Longrightarrow> map_set k v m = m @ [(k, v)]"
  by (simp add: map_set_def map_has_def)

lemma keys_replace: "map fst (map (\<lambda>e. if fst e = k then (k, v) else e) m) = map fst m"
  by (induction m) auto

lemma set_replace:
  "k \<in> fst ` set m \<Longrightarrow>
   set (map (\<lambda>e. if fst e = k then (k, v) else e) m) = insert (k, v) {e \<in> set m. fst e \<noteq> k}"
  by (induction m) auto

lemma keys_filter: "map fst (filter (\<lambda>e. fst e \<noteq> k) m) = filter (\<lambda>x. x \<noteq> k) (map fst m)"
  by (induction m) auto

lemma foldl_map_set_fresh:
  "distinct (map fst (acc @ es)) \<Longrightarrow>
   foldl (\<lambda>m e. map_set (fst e) (snd e) m) acc es = acc @ es"
proof (induction es arbitrary: acc)
  case Nil
  then show ?case by simp
next
  case (Cons e es)
  have f: "fst e \<notin> fst ` set acc" using Cons.prems by auto
  have "map_set (fst e) (snd e) acc = acc @ [e]" using map_set_absent[OF f] by simp
  moreover have "distinct (map fst ((acc @ [e]) @ es))" using Cons.prems by simp
  ultimately show ?case using Cons.IH[of "acc @ [e]"] by simp
qed

lemma map_from_entries_distinct: "distinct (map fst es) \<Longrightarrow> map_from_entries es = es"
  using foldl_map_set_fresh[of "[]" es] by (simp add: map_from_entries_def)

lemma byId0_distinct:
  "distinct (map id' ls) \<Longrightarrow> map_from_entries (map (\<lambda>l. (id' l, l)) ls) = map (\<lambda>l. (id' l, l)) ls"
  by (rule map_from_entries_distinct) (simp add: comp_def)

lemma map_of_key_None: "map_of m k = None \<longleftrightarrow> k \<notin> fst ` set m"
  by (simp add: map_of_eq_None_iff)

subsection \<open>One round of the loop\<close>

lemma merge_step_cases [consumes 1, case_names upd rekey new]:
  assumes "distinct (map fst B)"
  obtains
    (upd) e where "(id' x, e) \<in> set B"
      "merge_step now (B, S) x =
         (map (\<lambda>en. if fst en = id' x then (id' x, merge_existing now e x) else en) B,
          insert (id' x) S)"
  | (rekey) ke ve where "id' x \<notin> fst ` set B" "id' x = ''(primary)''" "(ke, ve) \<in> set B"
      "find (rekey_match x) B = Some (ke, ve)"
      "source ve = Tool" "startsWith ke ''primary-''" "directory ve = directory x"
      "merge_step now (B, S) x =
         (filter (\<lambda>en. fst en \<noteq> ke) B @ [(id' x, merge_existing now ve x)], insert (id' x) S)"
  | (new) "id' x \<notin> fst ` set B" "id' x = ''(primary)'' \<longrightarrow> find (rekey_match x) B = None"
      "merge_step now (B, S) x = (B @ [(id' x, merge_new now x)], insert (id' x) S)"
proof (cases "map_of B (id' x)")
  case (Some e)
  then have m: "(id' x, e) \<in> set B" by (rule map_of_SomeD)
  then have p: "id' x \<in> fst ` set B" by force
  show ?thesis
    by (rule upd[OF m]) (simp add: merge_step_def map_get_def Some map_set_present[OF p] Let_def)
next
  case None
  then have a: "id' x \<notin> fst ` set B" by (simp add: map_of_key_None)
  show ?thesis
  proof (cases "id' x = ''(primary)'' \<and> find (rekey_match x) B \<noteq> None")
    case True
    then obtain ke ve where f: "find (rekey_match x) B = Some (ke, ve)" by auto
    then have mem: "(ke, ve) \<in> set B" and rm: "rekey_match x (ke, ve)"
      by (auto simp: find_Some_iff)
    have a': "id' x \<notin> fst ` set (map_delete ke B)" using a by (auto simp: map_delete_def)
    show ?thesis
      apply (rule rekey[OF a _ mem f])
      using True rm a' f None
      by (simp_all add: rekey_match_def merge_step_def map_get_def map_set_absent map_delete_def Let_def)
  next
    case False
    then have n: "id' x = ''(primary)'' \<longrightarrow> find (rekey_match x) B = None" by blast
    have "merge_step now (B, S) x = (B @ [(id' x, merge_new now x)], insert (id' x) S)"
    proof (cases "id' x = ''(primary)''")
      case True
      with n have "find (rekey_match x) B = None" by simp
      then show ?thesis using True None a
        by (simp add: merge_step_def map_get_def map_set_absent Let_def)
    next
      case False
      then show ?thesis using None a
        by (simp add: merge_step_def map_get_def map_set_absent Let_def)
    qed
    then show ?thesis by (rule new[OF a n])
  qed
qed

subsection \<open>Invariants of the loop\<close>

lemma id_merge_existing [simp]: "id' (merge_existing now e x) = id' x"
  by (simp add: merge_existing_def)

lemma id_merge_new [simp]: "id' (merge_new now x) = id' x"
  by (simp add: merge_new_def)

lemma merge_existing_fields [simp]:
  "source (merge_existing now e x) = source e"
  "ptySession (merge_existing now e x) = ptySession e"
  "removed (merge_existing now e x) = False"
  "lastSeenAt (merge_existing now e x) = now"
  by (simp_all add: merge_existing_def)

lemma merge_new_fields [simp]:
  "source (merge_new now x) = source x"
  "ptySession (merge_new now x) = ptySession x"
  "removed (merge_new now x) = False"
  "lastSeenAt (merge_new now x) = now"
  "directory (merge_new now x) = directory x"
  by (simp_all add: merge_new_def)

lemma merge_step_seen: "snd (merge_step now s x) = insert (id' x) (snd s)"
  by (auto simp: merge_step_def Let_def split: option.splits)

lemma not_primary_prefix: "startsWith k ''primary-'' \<Longrightarrow> k \<noteq> ''(primary)''"
  by (auto simp: startsWith_def)

text \<open>The three shapes of a round, as sets of entries and lists of keys.\<close>

lemma merge_step_shape [consumes 1, case_names upd rekey new]:
  assumes "distinct (map fst B)"
  obtains
    (upd) e where "(id' x, e) \<in> set B"
      "set (fst (merge_step now (B, S) x)) =
         insert (id' x, merge_existing now e x) {en \<in> set B. fst en \<noteq> id' x}"
      "map fst (fst (merge_step now (B, S) x)) = map fst B"
  | (rekey) ke ve where "id' x \<notin> fst ` set B" "id' x = ''(primary)''" "(ke, ve) \<in> set B"
      "find (rekey_match x) B = Some (ke, ve)"
      "source ve = Tool" "startsWith ke ''primary-''" "directory ve = directory x"
      "set (fst (merge_step now (B, S) x)) =
         insert (id' x, merge_existing now ve x) {en \<in> set B. fst en \<noteq> ke}"
      "map fst (fst (merge_step now (B, S) x)) = filter (\<lambda>k. k \<noteq> ke) (map fst B) @ [id' x]"
  | (new) "id' x \<notin> fst ` set B" "id' x = ''(primary)'' \<longrightarrow> find (rekey_match x) B = None"
      "set (fst (merge_step now (B, S) x)) = insert (id' x, merge_new now x) (set B)"
      "map fst (fst (merge_step now (B, S) x)) = map fst B @ [id' x]"
  using assms
proof (cases rule: merge_step_cases[where x = x and now = now and S = S])
  case (upd e)
  then have p: "id' x \<in> fst ` set B" by force
  have "set (fst (merge_step now (B, S) x)) =
         insert (id' x, merge_existing now e x) {en \<in> set B. fst en \<noteq> id' x}"
    unfolding upd(2) fst_conv by (rule set_replace[OF p])
  moreover have "map fst (fst (merge_step now (B, S) x)) = map fst B"
    unfolding upd(2) fst_conv by (rule keys_replace)
  ultimately show ?thesis by (rule that(1)[OF upd(1)])
next
  case (rekey ke ve)
  show ?thesis
    by (rule that(2)[OF rekey(1-7)]) (auto simp: rekey(8) keys_filter)
next
  case new
  show ?thesis
    by (rule that(3)[OF new(1,2)]) (simp_all add: new(3))
qed

lemma wf_step:
  assumes "wf_map B"
  shows "wf_map (fst (merge_step now (B, S) x))"
proof -
  have d: "distinct (map fst B)" and i: "\<forall>e\<in>set B. id' (snd e) = fst e"
    using assms by (simp_all add: wf_map_def)
  from d show ?thesis
  proof (cases rule: merge_step_shape[where x = x and now = now and S = S])
    case (upd e)
    then show ?thesis using d i by (simp add: wf_map_def)
  next
    case (rekey ke ve)
    then show ?thesis using d i by (auto simp: wf_map_def)
  next
    case new
    then show ?thesis using d i by (auto simp: wf_map_def)
  qed
qed

lemma fresh_step:
  assumes "wf_map B" "fresh_inv now B0 (B, S)"
  shows "fresh_inv now B0 (merge_step now (B, S) x)"
proof -
  have d: "distinct (map fst B)" using assms by (simp add: wf_map_def)
  have old: "\<And>e. e \<in> set B \<Longrightarrow> fst e \<noteq> id' x \<Longrightarrow>
     (e \<in> set B0 \<and> fst e \<notin> insert (id' x) S) \<or>
     (fst e \<in> insert (id' x) S \<and> \<not> removed (snd e) \<and> lastSeenAt (snd e) = now)"
    using assms(2) by (auto simp: fresh_inv_def)
  from d show ?thesis
  proof (cases rule: merge_step_shape[where x = x and now = now and S = S])
    case (upd e)
    show ?thesis
      unfolding fresh_inv_def merge_step_seen upd(2)
      using old by auto
  next
    case (rekey ke ve)
    have "\<And>e. e \<in> set B \<Longrightarrow> fst e \<noteq> id' x" using rekey(1) by force
    then show ?thesis
      unfolding fresh_inv_def merge_step_seen rekey(8)
      using old by auto
  next
    case new
    have "\<And>e. e \<in> set B \<Longrightarrow> fst e \<noteq> id' x" using new(1) by force
    then show ?thesis
      unfolding fresh_inv_def merge_step_seen new(3)
      using old by auto
  qed
qed

lemma track_step:
  assumes w: "wf_map B" and t: "track_inv B0 (B, S)"
  shows "track_inv B0 (merge_step now (B, S) x)"
  unfolding track_inv_def merge_step_seen snd_conv
proof
  fix e0 assume e0: "e0 \<in> set B0"
  let ?S' = "insert (id' x) S"
  let ?B' = "fst (merge_step now (B, S) x)"
  let ?ok = "\<lambda>e'. source (snd e') = source (snd e0) \<and> ptySession (snd e') = ptySession (snd e0) \<and>
         ((fst e' = fst e0 \<and> (e' = e0 \<or> fst e0 \<in> ?S')) \<or>
          (fst e' = ''(primary)'' \<and> source (snd e0) = Tool \<and> startsWith (fst e0) ''primary-'' \<and>
           ''(primary)'' \<in> ?S'))"
  have d: "distinct (map fst B)" using w by (simp add: wf_map_def)
  from t e0 obtain e' where e': "e' \<in> set B"
    and sp: "source (snd e') = source (snd e0)" "ptySession (snd e') = ptySession (snd e0)"
    and k: "(fst e' = fst e0 \<and> (e' = e0 \<or> fst e0 \<in> S)) \<or>
          (fst e' = ''(primary)'' \<and> source (snd e0) = Tool \<and> startsWith (fst e0) ''primary-'' \<and>
           ''(primary)'' \<in> S)"
    by (auto simp: track_inv_def)
  have keep: "e' \<in> set ?B' \<Longrightarrow> \<exists>e''\<in>set ?B'. ?ok e''"
    using sp k by (intro bexI[of _ e']) auto
  from d show "\<exists>e''\<in>set ?B'. ?ok e''"
  proof (cases rule: merge_step_shape[where x = x and now = now and S = S])
    case (upd e)
    show ?thesis
    proof (cases "fst e' = id' x")
      case True
      have "(fst e', snd e') \<in> set B" using e' by simp
      with upd(1) True d have se: "snd e' = e" by (metis eq_key_imp_eq_value)
      have "(id' x, merge_existing now e x) \<in> set ?B'" using upd(2) by simp
      moreover have "?ok (id' x, merge_existing now e x)"
        using sp k True se by auto
      ultimately show ?thesis by blast
    next
      case False
      then have "e' \<in> set ?B'" using upd(2) e' by simp
      then show ?thesis by (rule keep)
    qed
  next
    case (rekey ke ve)
    show ?thesis
    proof (cases "fst e' = ke")
      case True
      have "(fst e', snd e') \<in> set B" using e' by simp
      with rekey(3) True d have se: "snd e' = ve" by (metis eq_key_imp_eq_value)
      have ne: "ke \<noteq> ''(primary)''" using rekey(6) by (rule not_primary_prefix)
      have f0: "fst e0 = ke" using k True ne by auto
      have "(id' x, merge_existing now ve x) \<in> set ?B'" using rekey(8) by simp
      moreover have "?ok (id' x, merge_existing now ve x)"
        using sp se rekey(2,5,6) f0 by auto
      ultimately show ?thesis by blast
    next
      case False
      then have "e' \<in> set ?B'" using rekey(8) e' by simp
      then show ?thesis by (rule keep)
    qed
  next
    case new
    have "e' \<in> set ?B'" using new(3) e' by simp
    then show ?thesis by (rule keep)
  qed
qed

lemma keys_inv_none:
  "length B0 \<le> length B \<Longrightarrow> filter (\<lambda>k. k \<notin> fst ` set B) (map fst B0) = [] \<Longrightarrow> keys_inv B0 B"
  by (simp add: keys_inv_def)

lemma keys_inv_one:
  "length B0 \<le> length B \<Longrightarrow> ''(primary)'' \<in> fst ` set B \<Longrightarrow> startsWith ke ''primary-'' \<Longrightarrow>
   filter (\<lambda>k. k \<notin> fst ` set B) (map fst B0) = [ke] \<Longrightarrow> keys_inv B0 B"
  unfolding keys_inv_def by (intro conjI disjI2 exI[of _ ke]) assumption+

lemma filter_neq_absent: "k \<notin> set xs \<Longrightarrow> filter (\<lambda>x. x \<noteq> k) xs = xs"
  by (induction xs) auto

lemma length_filter_neq:
  "distinct xs \<Longrightarrow> k \<in> set xs \<Longrightarrow> Suc (length (filter (\<lambda>x. x \<noteq> k) xs)) = length xs"
  by (induction xs) (auto simp: filter_neq_absent)

lemma filter_eq_distinct:
  "distinct xs \<Longrightarrow> filter (\<lambda>x. x = a) xs = [] \<or> filter (\<lambda>x. x = a) xs = [a]"
  by (induction xs) (auto simp: filter_empty_conv)

lemma filter_subset_nil:
  "filter P xs = [] \<Longrightarrow> (\<And>x. Q x \<Longrightarrow> P x) \<Longrightarrow> filter Q xs = []"
  by (auto simp: filter_empty_conv)

lemma keys_step:
  assumes w: "wf_map B" and d0: "distinct (map fst B0)" and ki: "keys_inv B0 B"
  shows "keys_inv B0 (fst (merge_step now (B, S) x))"
proof -
  let ?B' = "fst (merge_step now (B, S) x)"
  let ?lost = "\<lambda>B. filter (\<lambda>k. k \<notin> fst ` set B) (map fst B0)"
  have d: "distinct (map fst B)" using w by (simp add: wf_map_def)
  have len: "length B0 \<le> length B" using ki by (simp add: keys_inv_def)
  have grow: "fst ` set B \<subseteq> fst ` set ?B' \<Longrightarrow> length B \<le> length ?B' \<Longrightarrow> keys_inv B0 ?B'"
  proof -
    assume sub: "fst ` set B \<subseteq> fst ` set ?B'" and l: "length B \<le> length ?B'"
    from ki consider (none) "?lost B = []"
      | (one) ke where "''(primary)'' \<in> fst ` set B" "startsWith ke ''primary-''" "?lost B = [ke]"
      by (auto simp: keys_inv_def)
    then show ?thesis
    proof cases
      case none
      then have "?lost ?B' = []" using sub by (auto simp: filter_empty_conv)
      then show ?thesis using len l by (intro keys_inv_none) simp_all
    next
      case (one ke)
      have p: "''(primary)'' \<in> fst ` set ?B'" using one(1) sub by blast
      show ?thesis
      proof (cases "ke \<in> fst ` set ?B'")
        case True
        have "\<And>k. k \<in> set (map fst B0) \<Longrightarrow> k \<notin> fst ` set ?B' \<Longrightarrow> k \<in> set (?lost B)"
          using sub by auto
        then have "\<And>k. k \<in> set (map fst B0) \<Longrightarrow> k \<notin> fst ` set ?B' \<Longrightarrow> k = ke"
          using one(3) by simp
        with True have "?lost ?B' = []" by (auto simp: filter_empty_conv)
        then show ?thesis using len l by (intro keys_inv_none) simp_all
      next
        case False
        have "?lost ?B' = filter (\<lambda>k. k \<notin> fst ` set ?B') (?lost B)"
          unfolding filter_filter by (rule filter_cong) (use sub in auto)
        then have "?lost ?B' = [ke]" using one(3) False by simp
        then show ?thesis using len l p one(2) by (intro keys_inv_one[of _ _ ke]) simp_all
      qed
    qed
  qed
  from d show ?thesis
  proof (cases rule: merge_step_shape[where x = x and now = now and S = S])
    case (upd e)
    have "length ?B' = length B" using upd(3) by (metis length_map)
    moreover have "fst ` set B \<subseteq> fst ` set ?B'" using upd(3) by (metis set_map subset_refl)
    ultimately show ?thesis using grow by simp
  next
    case new
    have "length ?B' = Suc (length B)" using new(4) by (metis length_map length_append_singleton)
    moreover have "fst ` set B \<subseteq> fst ` set ?B'" using new(3) by auto
    ultimately show ?thesis using grow by simp
  next
    case (rekey ke ve)
    have np: "''(primary)'' \<notin> fst ` set B" using rekey(1,2) by simp
    with ki have lost0: "?lost B = []" by (auto simp: keys_inv_def)
    have keys': "set (map fst ?B') = insert ''(primary)'' (set (map fst B) - {ke})"
      unfolding rekey(9) using rekey(2) by auto
    then have keys'': "fst ` set ?B' = insert ''(primary)'' (fst ` set B - {ke})" by simp
    have kin: "ke \<in> set (map fst B)" using rekey(3) by force
    have "length (map fst ?B') = length (map fst B)"
      unfolding rekey(9) using length_filter_neq[OF d kin] by simp
    then have l: "length ?B' = length B" by simp
    have p: "''(primary)'' \<in> fst ` set ?B'" using keys'' by simp
    have "?lost ?B' = filter (\<lambda>k. k = ke) (map fst B0)"
    proof (rule filter_cong[OF refl])
      fix k assume "k \<in> set (map fst B0)"
      then have "k \<in> fst ` set B" using lost0 by (auto simp: filter_empty_conv)
      then show "(k \<notin> fst ` set ?B') = (k = ke)"
        using keys'' np not_primary_prefix[OF rekey(6)] by auto
    qed
    then consider "?lost ?B' = []" | "?lost ?B' = [ke]"
      using filter_eq_distinct[OF d0, of ke] by auto
    then show ?thesis
    proof cases
      case 1
      then show ?thesis using len l by (intro keys_inv_none) simp_all
    next
      case 2
      then show ?thesis using len l p rekey(6) by (intro keys_inv_one[of _ _ ke]) simp_all
    qed
  qed
qed

subsection \<open>The whole loop\<close>

lemma foldl_invariant:
  assumes "I s" and "\<And>s x. x \<in> set xs \<Longrightarrow> I s \<Longrightarrow> I (f s x)"
  shows "I (foldl f s xs)"
  using assms by (induction xs arbitrary: s) auto

lemma merge_loop_seen: "snd (foldl (merge_step now) s P) = snd s \<union> id' ` set P"
  by (induction P arbitrary: s) (auto simp: merge_step_seen)

lemma loop_inv_init: "wf_map B0 \<Longrightarrow> loop_inv now B0 (B0, {})"
  by (auto simp: loop_inv_def fresh_inv_def track_inv_def keys_inv_def filter_empty_conv)

lemma loop_inv_step:
  assumes "distinct (map fst B0)" "loop_inv now B0 s"
  shows "loop_inv now B0 (merge_step now s x)"
proof -
  obtain B S where s: "s = (B, S)" by (cases s)
  have w: "wf_map B" using assms(2) s by (simp add: loop_inv_def)
  show ?thesis
    unfolding loop_inv_def s
    using wf_step[OF w, of now S x] fresh_step[OF w, of now B0 S x]
      track_step[OF w, of B0 S now x] keys_step[OF w assms(1), of now S x]
      assms(2) s
    by (simp add: loop_inv_def)
qed

lemma loop_inv_fold:
  assumes "wf_map B0"
  shows "loop_inv now B0 (foldl (merge_step now) (B0, {}) P)"
proof (rule foldl_invariant)
  show "loop_inv now B0 (B0, {})" by (rule loop_inv_init[OF assms])
next
  fix s x assume "loop_inv now B0 s"
  then show "loop_inv now B0 (merge_step now s x)"
    using assms by (intro loop_inv_step) (simp_all add: wf_map_def)
qed

subsection \<open>Marking, ordering, and the resulting list\<close>

lemma keys_mark_removed [simp]: "map fst (mark_removed S B) = map fst B"
  by (induction B) (auto simp: mark_removed_def)

lemma wf_mark_removed: "wf_map B \<Longrightarrow> wf_map (mark_removed S B)"
  by (auto simp: wf_map_def) (auto simp: mark_removed_def split: if_splits)

lemma set_add_fold:
  "distinct ks \<Longrightarrow>
   foldl (\<lambda>acc i. if i \<in> set acc then acc else acc @ [i]) acc ks =
     acc @ filter (\<lambda>k. k \<notin> set acc) ks"
proof (induction ks arbitrary: acc)
  case Nil
  then show ?case by simp
next
  case (Cons k ks)
  then have d: "distinct ks" and n: "k \<notin> set ks" by simp_all
  show ?case
  proof (cases "k \<in> set acc")
    case True
    then show ?thesis using Cons.IH[OF d, of acc] by simp
  next
    case False
    have "filter (\<lambda>j. j \<notin> set (acc @ [k])) ks = filter (\<lambda>j. j \<notin> set acc) ks"
      by (rule filter_cong) (use n in auto)
    then show ?thesis using False Cons.IH[OF d, of "acc @ [k]"] by simp
  qed
qed

lemma orderedIds_eq:
  assumes "distinct (map fst M)"
  shows "orderedIds prev M =
     filter (\<lambda>k. k \<in> fst ` set M) prev @ filter (\<lambda>k. k \<notin> set prev) (map fst M)"
proof -
  have "filter (\<lambda>k. k \<notin> set (filter (map_has M) prev)) (map fst M) =
        filter (\<lambda>k. k \<notin> set prev) (map fst M)"
    by (rule filter_cong) (auto simp: map_has_def)
  moreover have "map_has M = (\<lambda>k. k \<in> fst ` set M)"
    by (auto simp: map_has_def fun_eq_iff)
  ultimately show ?thesis
    unfolding orderedIds_def using set_add_fold[OF assms, of "filter (map_has M) prev"]
    by simp
qed

lemma map_filter_get:
  "set ks \<subseteq> fst ` set M \<Longrightarrow> List.map_filter (map_get M) ks = map (\<lambda>k. the (map_of M k)) ks"
proof (induction ks)
  case Nil
  then show ?case by (simp add: List.map_filter_simps)
next
  case (Cons k ks)
  then have "k \<in> fst ` set M" by simp
  then obtain v where "map_of M k = Some v"
    by (metis map_of_eq_None_iff not_Some_eq)
  then show ?case using Cons by (simp add: List.map_filter_simps map_get_def)
qed

lemma loops_mergePolled:
  "loops (mergePolled now P st) =
     List.map_filter (map_get (merged_map now P st))
       (orderedIds (map id' (loops st)) (merged_map now P st))"
  by (simp add: mergePolled_def merged_map_def Let_def)

lemma wf_byId0: "distinct (map id' ls) \<Longrightarrow> wf_map (map (\<lambda>l. (id' l, l)) ls)"
  by (simp add: wf_map_def comp_def)

text \<open>The facts about a pass that the theorems below draw on.\<close>

lemma merge_pass:
  fixes now :: int and P :: "TrackedLoop list" and st :: LoopManager
  assumes d: "distinct (map id' (loops st))"
  defines "B0 \<equiv> map (\<lambda>l. (id' l, l)) (loops st)"
  defines "s \<equiv> foldl (merge_step now) (B0, {}) P"
  defines "M \<equiv> merged_map now P st"
  defines "ids \<equiv> filter (\<lambda>k. k \<in> fst ` set M) (map id' (loops st)) @
                  filter (\<lambda>k. k \<notin> set (map id' (loops st))) (map fst M)"
  shows "loop_inv now B0 s" and "snd s = id' ` set P" and "M = mark_removed (snd s) (fst s)"
    and "wf_map M"
    and "loops (mergePolled now P st) = map (\<lambda>k. the (map_of M k)) ids"
    and "map id' (loops (mergePolled now P st)) = ids"
    and "set (loops (mergePolled now P st)) = snd ` set M"
    and "distinct ids" and "set ids = fst ` set M"
proof -
  have w0: "wf_map B0" unfolding B0_def by (rule wf_byId0[OF d])
  show li: "loop_inv now B0 s" unfolding s_def by (rule loop_inv_fold[OF w0])
  show sn: "snd s = id' ` set P" unfolding s_def by (simp add: merge_loop_seen)
  show m: "M = mark_removed (snd s) (fst s)"
    unfolding M_def merged_map_def s_def B0_def using byId0_distinct[OF d] by (simp add: Let_def)
  show wm: "wf_map M" unfolding m using li by (intro wf_mark_removed) (simp add: loop_inv_def)
  then have dm: "distinct (map fst M)" and im: "\<forall>e\<in>set M. id' (snd e) = fst e"
    by (simp_all add: wf_map_def)
  have oi: "orderedIds (map id' (loops st)) M = ids"
    unfolding ids_def by (rule orderedIds_eq[OF dm])
  show si: "set ids = fst ` set M" unfolding ids_def by auto
  show di: "distinct ids" unfolding ids_def using d dm by auto
  show lo: "loops (mergePolled now P st) = map (\<lambda>k. the (map_of M k)) ids"
    unfolding loops_mergePolled M_def[symmetric] oi
    by (rule map_filter_get) (simp add: si)
  have val: "\<And>k. k \<in> fst ` set M \<Longrightarrow> (k, the (map_of M k)) \<in> set M"
  proof -
    fix k assume "k \<in> fst ` set M"
    then obtain v where kv: "(k, v) \<in> set M" by force
    then have "map_of M k = Some v" using dm by simp
    then show "(k, the (map_of M k)) \<in> set M" using kv by simp
  qed
  show "map id' (loops (mergePolled now P st)) = ids"
  proof -
    have "\<And>k. k \<in> set ids \<Longrightarrow> id' (the (map_of M k)) = k"
    proof -
      fix k assume "k \<in> set ids"
      then have "(k, the (map_of M k)) \<in> set M" using val si by simp
      then show "id' (the (map_of M k)) = k" using im by force
    qed
    then show ?thesis unfolding lo by (simp add: map_idI)
  qed
  show "set (loops (mergePolled now P st)) = snd ` set M"
  proof
    show "set (loops (mergePolled now P st)) \<subseteq> snd ` set M"
    proof
      fix v assume "v \<in> set (loops (mergePolled now P st))"
      then obtain k where k: "k \<in> set ids" "v = the (map_of M k)" unfolding lo by auto
      then have "(k, v) \<in> set M" using val si by simp
      then show "v \<in> snd ` set M" by force
    qed
    show "snd ` set M \<subseteq> set (loops (mergePolled now P st))"
    proof
      fix v assume "v \<in> snd ` set M"
      then obtain k where kv: "(k, v) \<in> set M" by auto
      then have "map_of M k = Some v" using dm by simp
      moreover have "k \<in> set ids" using kv si by force
      ultimately have "v \<in> (\<lambda>k. the (map_of M k)) ` set ids" by force
      then show "v \<in> set (loops (mergePolled now P st))" unfolding lo by simp
    qed
  qed
qed

lemma mark_removed_mem:
  "m \<in> set (mark_removed S B) \<longleftrightarrow>
   (\<exists>e\<in>set B. m = (if id' (snd e) \<notin> S \<and> source (snd e) \<noteq> Tool
                     then (fst e, (snd e)\<lparr>removed := True\<rparr>) else e))"
  unfolding mark_removed_def set_map image_iff by (rule refl)

lemma mark_keeps:
  "e \<in> set B \<Longrightarrow> id' (snd e) \<in> S \<or> source (snd e) = Tool \<Longrightarrow> e \<in> set (mark_removed S B)"
  unfolding mark_removed_mem by (intro bexI[of _ e]) auto

lemma mark_marks:
  "e \<in> set B \<Longrightarrow> id' (snd e) \<notin> S \<Longrightarrow> source (snd e) \<noteq> Tool \<Longrightarrow>
   (fst e, (snd e)\<lparr>removed := True\<rparr>) \<in> set (mark_removed S B)"
  unfolding mark_removed_mem by (intro bexI[of _ e]) auto

lemma mark_cases:
  assumes "m \<in> set (mark_removed S B)"
  obtains (kept) "m \<in> set B" "id' (snd m) \<in> S \<or> source (snd m) = Tool"
  | (marked) e where "e \<in> set B" "id' (snd e) \<notin> S" "source (snd e) \<noteq> Tool"
      "m = (fst e, (snd e)\<lparr>removed := True\<rparr>)"
  using assms unfolding mark_removed_mem by (auto split: if_splits)

lemma track_invD:
  assumes "track_inv B0 s" "(k, v) \<in> set B0"
  obtains e' where "e' \<in> set (fst s)" "source (snd e') = source v"
    "ptySession (snd e') = ptySession v"
    "(fst e' = k \<and> (e' = (k, v) \<or> k \<in> snd s)) \<or>
     (fst e' = ''(primary)'' \<and> source v = Tool \<and> startsWith k ''primary-'' \<and>
      ''(primary)'' \<in> snd s)"
proof -
  from assms obtain e' where "e' \<in> set (fst s)"
     "source (snd e') = source (snd (k, v)) \<and> ptySession (snd e') = ptySession (snd (k, v)) \<and>
         ((fst e' = fst (k, v) \<and> (e' = (k, v) \<or> fst (k, v) \<in> snd s)) \<or>
          (fst e' = ''(primary)'' \<and> source (snd (k, v)) = Tool \<and>
           startsWith (fst (k, v)) ''primary-'' \<and> ''(primary)'' \<in> snd s))"
    unfolding track_inv_def by blast
  then show ?thesis using that[of e'] by simp
qed

lemma fresh_invD:
  assumes "fresh_inv now B0 s" "e \<in> set (fst s)"
  shows "(e \<in> set B0 \<and> fst e \<notin> snd s) \<or>
         (fst e \<in> snd s \<and> \<not> removed (snd e) \<and> lastSeenAt (snd e) = now)"
  using assms unfolding fresh_inv_def by blast

lemma wf_mapD: "wf_map B \<Longrightarrow> e \<in> set B \<Longrightarrow> id' (snd e) = fst e"
  by (simp add: wf_map_def)

lemma tool_not_marked:
  assumes d: "distinct (map id' (loops st))"
    and r: "r \<in> set (loops st)" "source r = Tool" "id' r \<notin> id' ` set P"
  shows "r \<in> set (loops (mergePolled now P st)) \<or>
         (\<exists>r'\<in>set (loops (mergePolled now P st)).
             id' r' = ''(primary)'' \<and> source r' = Tool \<and> ptySession r' = ptySession r \<and>
             \<not> removed r')"
proof -
  define B0 where "B0 = map (\<lambda>l. (id' l, l)) (loops st)"
  define s where "s = foldl (merge_step now) (B0, {}) P"
  define M where "M = merged_map now P st"
  define L' where "L' = loops (mergePolled now P st)"
  note mp = merge_pass[OF d, of now P, folded B0_def, folded s_def M_def L'_def]
  have li: "loop_inv now B0 s" by (rule mp(1))
  have sn: "snd s = id' ` set P" by (rule mp(2))
  have m: "M = mark_removed (snd s) (fst s)" by (rule mp(3))
  have sl: "set L' = snd ` set M" by (rule mp(7))
  have wf: "wf_map (fst s)" and tr: "track_inv B0 s" and fr: "fresh_inv now B0 s"
    using li by (simp_all add: loop_inv_def)
  have e0: "(id' r, r) \<in> set B0" using r(1) by (auto simp: B0_def)
  from track_invD[OF tr e0] obtain e' where e': "e' \<in> set (fst s)"
    and sp: "source (snd e') = source r" "ptySession (snd e') = ptySession r"
    and k: "(fst e' = id' r \<and> (e' = (id' r, r) \<or> id' r \<in> snd s)) \<or>
            (fst e' = ''(primary)'' \<and> source r = Tool \<and> startsWith (id' r) ''primary-'' \<and>
             ''(primary)'' \<in> snd s)"
    by blast
  have ie: "id' (snd e') = fst e'" by (rule wf_mapD[OF wf e'])
  have "e' \<in> set M" unfolding m using e' sp(1) r(2) by (intro mark_keeps) simp_all
  then have in_res: "snd e' \<in> set L'" unfolding sl by force
  from k have "r \<in> set L' \<or> (\<exists>r'\<in>set L'.
             id' r' = ''(primary)'' \<and> source r' = Tool \<and> ptySession r' = ptySession r \<and>
             \<not> removed r')"
  proof
    assume "fst e' = id' r \<and> (e' = (id' r, r) \<or> id' r \<in> snd s)"
    then have "e' = (id' r, r)" using r(3) sn by simp
    then show ?thesis using in_res by simp
  next
    assume p: "fst e' = ''(primary)'' \<and> source r = Tool \<and> startsWith (id' r) ''primary-'' \<and>
             ''(primary)'' \<in> snd s"
    have "\<not> removed (snd e')" using fresh_invD[OF fr e'] p by auto
    then show ?thesis using in_res sp ie p r(2)
      by (intro disjI2 bexI[of _ "snd e'"]) simp_all
  qed
  then show ?thesis unfolding L'_def .
qed

lemma removed_only_unseen:
  assumes d: "distinct (map id' (loops st))"
    and r: "r' \<in> set (loops (mergePolled now P st))" "removed r'"
  shows "id' r' \<notin> id' ` set P \<and> (source r' \<noteq> Tool \<or> r' \<in> set (loops st))"
proof -
  define B0 where "B0 = map (\<lambda>l. (id' l, l)) (loops st)"
  define s where "s = foldl (merge_step now) (B0, {}) P"
  define M where "M = merged_map now P st"
  define L' where "L' = loops (mergePolled now P st)"
  note mp = merge_pass[OF d, of now P, folded B0_def, folded s_def M_def L'_def]
  have li: "loop_inv now B0 s" by (rule mp(1))
  have sn: "snd s = id' ` set P" by (rule mp(2))
  have m: "M = mark_removed (snd s) (fst s)" by (rule mp(3))
  have sl: "set L' = snd ` set M" by (rule mp(7))
  have wf: "wf_map (fst s)" and fr: "fresh_inv now B0 s"
    using li by (simp_all add: loop_inv_def)
  from r(1) obtain mm where mm: "mm \<in> set M" "r' = snd mm" unfolding L'_def[symmetric] sl by auto
  from mm(1)[unfolded m] show ?thesis
  proof (cases rule: mark_cases)
    case kept
    have "mm \<in> set B0 \<and> fst mm \<notin> snd s"
      using fresh_invD[OF fr kept(1)] r(2) mm(2) by auto
    moreover have "id' (snd mm) = fst mm" by (rule wf_mapD[OF wf kept(1)])
    ultimately show ?thesis using mm(2) sn by (auto simp: B0_def)
  next
    case (marked e)
    then show ?thesis using mm(2) sn by simp
  qed
qed

lemma unseen_marked:
  assumes d: "distinct (map id' (loops st))"
    and r: "r \<in> set (loops st)" "source r \<noteq> Tool" "id' r \<notin> id' ` set P"
  shows "r\<lparr>removed := True\<rparr> \<in> set (loops (mergePolled now P st))"
proof -
  define B0 where "B0 = map (\<lambda>l. (id' l, l)) (loops st)"
  define s where "s = foldl (merge_step now) (B0, {}) P"
  define M where "M = merged_map now P st"
  define L' where "L' = loops (mergePolled now P st)"
  note mp = merge_pass[OF d, of now P, folded B0_def, folded s_def M_def L'_def]
  have li: "loop_inv now B0 s" by (rule mp(1))
  have sn: "snd s = id' ` set P" by (rule mp(2))
  have m: "M = mark_removed (snd s) (fst s)" by (rule mp(3))
  have sl: "set L' = snd ` set M" by (rule mp(7))
  have tr: "track_inv B0 s" using li by (simp add: loop_inv_def)
  have e0: "(id' r, r) \<in> set B0" using r(1) by (auto simp: B0_def)
  from track_invD[OF tr e0] obtain e' where e': "e' \<in> set (fst s)"
    and k: "(fst e' = id' r \<and> (e' = (id' r, r) \<or> id' r \<in> snd s)) \<or>
     (fst e' = ''(primary)'' \<and> source r = Tool \<and> startsWith (id' r) ''primary-'' \<and>
      ''(primary)'' \<in> snd s)"
    by blast
  then have "e' = (id' r, r)" using r(2,3) sn by auto
  then have "(id' r, r) \<in> set (fst s)" using e' by simp
  from mark_marks[OF this, of "snd s"] have "(id' r, r\<lparr>removed := True\<rparr>) \<in> set M"
    unfolding m using r(2,3) sn by simp
  then have "r\<lparr>removed := True\<rparr> \<in> set L'" unfolding sl by force
  then show ?thesis unfolding L'_def .
qed

lemma nothing_deleted:
  assumes d: "distinct (map id' (loops st))"
  shows "length (loops st) \<le> length (loops (mergePolled now P st))"
proof -
  define B0 where "B0 = map (\<lambda>l. (id' l, l)) (loops st)"
  define s where "s = foldl (merge_step now) (B0, {}) P"
  define M where "M = merged_map now P st"
  define L' where "L' = loops (mergePolled now P st)"
  note mp = merge_pass[OF d, of now P, folded B0_def, folded s_def M_def L'_def]
  have "keys_inv B0 (fst s)" using mp(1) by (simp add: loop_inv_def)
  then have "length B0 \<le> length (fst s)" by (simp add: keys_inv_def)
  moreover have "length (map fst M) = length (fst s)" unfolding mp(3) by simp
  moreover have "length (map id' L') = length (map fst M)"
  proof -
    have "distinct (map fst M)" using mp(4) by (simp add: wf_map_def)
    then have "card (set (map fst M)) = length (map fst M)" by (rule distinct_card)
    moreover have "card (set (map id' L')) = length (map id' L')"
      unfolding mp(6) using mp(8) by (rule distinct_card)
    moreover have "set (map id' L') = set (map fst M)"
      unfolding mp(6) mp(9) by simp
    ultimately show ?thesis by simp
  qed
  ultimately show ?thesis by (simp add: B0_def L'_def)
qed

lemma record_survives:
  assumes d: "distinct (map id' (loops st))" and r: "r \<in> set (loops st)"
  shows "id' r \<in> id' ` set (loops (mergePolled now P st)) \<or>
         (source r = Tool \<and> startsWith (id' r) ''primary-'' \<and>
          (\<exists>r'\<in>set (loops (mergePolled now P st)).
             id' r' = ''(primary)'' \<and> source r' = Tool \<and> ptySession r' = ptySession r))"
proof -
  define B0 where "B0 = map (\<lambda>l. (id' l, l)) (loops st)"
  define s where "s = foldl (merge_step now) (B0, {}) P"
  define M where "M = merged_map now P st"
  define L' where "L' = loops (mergePolled now P st)"
  note mp = merge_pass[OF d, of now P, folded B0_def, folded s_def M_def L'_def]
  have li: "loop_inv now B0 s" by (rule mp(1))
  have m: "M = mark_removed (snd s) (fst s)" by (rule mp(3))
  have sl: "set L' = snd ` set M" by (rule mp(7))
  have wf: "wf_map (fst s)" and tr: "track_inv B0 s" using li by (simp_all add: loop_inv_def)
  have e0: "(id' r, r) \<in> set B0" using r by (auto simp: B0_def)
  from track_invD[OF tr e0] obtain e' where e': "e' \<in> set (fst s)"
    and sp: "source (snd e') = source r" "ptySession (snd e') = ptySession r"
    and k0: "(fst e' = id' r \<and> (e' = (id' r, r) \<or> id' r \<in> snd s)) \<or>
     (fst e' = ''(primary)'' \<and> source r = Tool \<and> startsWith (id' r) ''primary-'' \<and>
      ''(primary)'' \<in> snd s)"
    by blast
  from k0 have k: "fst e' = id' r \<or>
            (fst e' = ''(primary)'' \<and> source r = Tool \<and> startsWith (id' r) ''primary-'')"
    by blast
  have ie: "id' (snd e') = fst e'" by (rule wf_mapD[OF wf e'])
  obtain v where v: "v \<in> set L'" "id' v = fst e'" "source v = source r"
    "ptySession v = ptySession r"
  proof (cases "id' (snd e') \<in> snd s \<or> source (snd e') = Tool")
    case True
    from mark_keeps[OF e' True] have "snd e' \<in> set L'" unfolding sl m by force
    then show ?thesis using that[of "snd e'"] ie sp by simp
  next
    case False
    then have "(fst e', (snd e')\<lparr>removed := True\<rparr>) \<in> set M"
      unfolding m using mark_marks[OF e', of "snd s"] by simp
    then have "(snd e')\<lparr>removed := True\<rparr> \<in> set L'" unfolding sl by force
    then show ?thesis using that[of "(snd e')\<lparr>removed := True\<rparr>"] ie sp by simp
  qed
  from k have "id' r \<in> id' ` set L' \<or>
         (source r = Tool \<and> startsWith (id' r) ''primary-'' \<and>
          (\<exists>r'\<in>set L'. id' r' = ''(primary)'' \<and> source r' = Tool \<and> ptySession r' = ptySession r))"
  proof
    assume "fst e' = id' r"
    then have "id' r \<in> id' ` set L'" using v(1,2) by (metis imageI)
    then show ?thesis by simp
  next
    assume p: "fst e' = ''(primary)'' \<and> source r = Tool \<and> startsWith (id' r) ''primary-''"
    then show ?thesis using v by (intro disjI2 conjI bexI[of _ v]) simp_all
  qed
  then show ?thesis unfolding L'_def .
qed

text \<open>
  Claim C1. In a collection with unique identities, a merge never marks a tool-started loop
  removed because the poll omits it: such a record is in the collection afterwards exactly as
  it was, unless this pass re-keyed it, and then it is the record keyed \<^verbatim>\<open>(primary)\<close>, with
  source \<^verbatim>\<open>tool\<close>, its session and removed false. A record that is removed after the merge
  was not observed in the pass, and its source is not \<^verbatim>\<open>tool\<close> or it is a record the merge
  did not touch; a record whose source is not \<^verbatim>\<open>tool\<close> and that was not observed is marked
  removed. No record is dropped: the collection does not shrink, and every record is still
  there under its identity, or under \<^verbatim>\<open>(primary)\<close> when it was re-keyed.
\<close>

theorem mergePolled_removal:
  assumes "distinct (map id' (loops st))"
  shows
   "(\<forall>r\<in>set (loops st). source r = Tool \<and> id' r \<notin> id' ` set polled \<longrightarrow>
       r \<in> set (loops (mergePolled now polled st)) \<or>
       (\<exists>r'\<in>set (loops (mergePolled now polled st)).
           id' r' = ''(primary)'' \<and> source r' = Tool \<and> ptySession r' = ptySession r \<and>
           \<not> removed r')) \<and>
    (\<forall>r'\<in>set (loops (mergePolled now polled st)). removed r' \<longrightarrow>
       id' r' \<notin> id' ` set polled \<and> (source r' \<noteq> Tool \<or> r' \<in> set (loops st))) \<and>
    (\<forall>r\<in>set (loops st). source r \<noteq> Tool \<and> id' r \<notin> id' ` set polled \<longrightarrow>
       r\<lparr>removed := True\<rparr> \<in> set (loops (mergePolled now polled st))) \<and>
    length (loops st) \<le> length (loops (mergePolled now polled st)) \<and>
    (\<forall>r\<in>set (loops st).
       id' r \<in> id' ` set (loops (mergePolled now polled st)) \<or>
       (source r = Tool \<and> startsWith (id' r) ''primary-'' \<and>
        (\<exists>r'\<in>set (loops (mergePolled now polled st)).
            id' r' = ''(primary)'' \<and> source r' = Tool \<and> ptySession r' = ptySession r)))"
proof (intro conjI ballI impI)
  fix r assume "r \<in> set (loops st)" "source r = Tool \<and> id' r \<notin> id' ` set polled"
  then show "r \<in> set (loops (mergePolled now polled st)) \<or>
       (\<exists>r'\<in>set (loops (mergePolled now polled st)).
           id' r' = ''(primary)'' \<and> source r' = Tool \<and> ptySession r' = ptySession r \<and>
           \<not> removed r')"
    using tool_not_marked[OF assms, of r polled now] by simp
next
  fix r' assume "r' \<in> set (loops (mergePolled now polled st))" "removed r'"
  then show "id' r' \<notin> id' ` set polled" "source r' \<noteq> Tool \<or> r' \<in> set (loops st)"
    using removed_only_unseen[OF assms, of r' now polled] by simp_all
next
  fix r assume "r \<in> set (loops st)" "source r \<noteq> Tool \<and> id' r \<notin> id' ` set polled"
  then show "r\<lparr>removed := True\<rparr> \<in> set (loops (mergePolled now polled st))"
    using unseen_marked[OF assms, of r polled now] by simp
next
  show "length (loops st) \<le> length (loops (mergePolled now polled st))"
    by (rule nothing_deleted[OF assms])
next
  fix r assume "r \<in> set (loops st)"
  then show "id' r \<in> id' ` set (loops (mergePolled now polled st)) \<or>
       (source r = Tool \<and> startsWith (id' r) ''primary-'' \<and>
        (\<exists>r'\<in>set (loops (mergePolled now polled st)).
            id' r' = ''(primary)'' \<and> source r' = Tool \<and> ptySession r' = ptySession r))"
    by (rule record_survives[OF assms])
qed

lemmas ex_defs = ex_manager_def ex_tool_primary_def ex_worker_def ex_primary_candidate_def
  mk_manager_def mk_loop_def

lemma ex_eval: "loops (mergePolled 5 [] ex_manager) = [ex_tool_primary, ex_worker\<lparr>removed := True\<rparr>]"
    by (simp add: mergePolled_def ex_defs map_from_entries_def map_set_def map_has_def map_get_def
        mark_removed_def orderedIds_def List.map_filter_def Let_def)

theorem mergePolled_removal_witness:
  "distinct (map id' (loops ex_manager)) \<and>
   loops (mergePolled 5 [] ex_manager) = [ex_tool_primary, ex_worker\<lparr>removed := True\<rparr>] \<and>
   \<not> removed ex_tool_primary \<and>
   ex_worker\<lparr>removed := True\<rparr> \<in> set (loops (mergePolled 5 [] ex_manager)) \<and>
   length (loops ex_manager) \<le> length (loops (mergePolled 5 [ex_primary_candidate] ex_manager)) \<and>
   (ex_tool_primary \<in> set (loops (mergePolled 5 [ex_primary_candidate] ex_manager)) \<or>
    (\<exists>r'\<in>set (loops (mergePolled 5 [ex_primary_candidate] ex_manager)).
        id' r' = ''(primary)'' \<and> source r' = Tool \<and>
        ptySession r' = ptySession ex_tool_primary \<and> \<not> removed r'))"
proof -
  have d: "distinct (map id' (loops ex_manager))" by (simp add: ex_defs)
  have t: "ex_tool_primary \<in> set (loops ex_manager)"
    "source ex_tool_primary = Tool \<and> id' ex_tool_primary \<notin> id' ` set [ex_primary_candidate]"
    "\<not> removed ex_tool_primary"
    by (simp_all add: ex_defs)
  have w: "ex_worker \<in> set (loops ex_manager)"
    "source ex_worker \<noteq> Tool \<and> id' ex_worker \<notin> id' ` set []"
    by (simp_all add: ex_defs)
  note a = mergePolled_removal[OF d, of "[]" 5]
  note b = mergePolled_removal[OF d, of "[ex_primary_candidate]" 5]
  note a3 = a[THEN conjunct2, THEN conjunct2, THEN conjunct1, rule_format, OF w]
  note b1 = b[THEN conjunct1, rule_format, OF t(1,2)]
  note b4 = b[THEN conjunct2, THEN conjunct2, THEN conjunct2, THEN conjunct1]
  show ?thesis
    by (intro conjI) (rule d ex_eval t(3) a3 b4 b1)+
qed

subsection \<open>Directories\<close>

lemma directory_merge_existing:
  "\<not> usable_directory (directory x) \<Longrightarrow> directory (merge_existing now e x) = directory e"
  by (simp add: merge_existing_def)

lemma dir_step:
  assumes w: "wf_map B" and x: "x \<in> set P" and i: "dir_inv P B0 (B, S)"
  shows "dir_inv P B0 (merge_step now (B, S) x)"
  unfolding dir_inv_def merge_step_seen snd_conv
proof (intro ballI impI)
  fix e0 assume e0: "e0 \<in> set B0"
    and pl: "\<forall>x\<in>set P. id' x = fst e0 \<longrightarrow> \<not> usable_directory (directory x)"
  let ?B' = "fst (merge_step now (B, S) x)"
  let ?S' = "insert (id' x) S"
  let ?ok = "\<lambda>e'. fst e' = fst e0 \<and> directory (snd e') = directory (snd e0) \<and>
            source (snd e') = source (snd e0)"
  let ?esc = "\<lambda>S. source (snd e0) = Tool \<and> startsWith (fst e0) ''primary-'' \<and> ''(primary)'' \<in> S"
  have d: "distinct (map fst B)" using w by (simp add: wf_map_def)
  from i e0 pl have "(\<exists>e'\<in>set B. ?ok e') \<or> ?esc S"
    unfolding dir_inv_def fst_conv snd_conv by blast
  then show "(\<exists>e'\<in>set ?B'. ?ok e') \<or> ?esc ?S'"
  proof
    assume "?esc S"
    then show ?thesis by simp
  next
    assume "\<exists>e'\<in>set B. ?ok e'"
    then obtain e' where e': "e' \<in> set B" and ok: "?ok e'" by blast
    from d show ?thesis
    proof (cases rule: merge_step_shape[where x = x and now = now and S = S])
      case (upd e)
      show ?thesis
      proof (cases "fst e' = id' x")
        case True
        have "(fst e', snd e') \<in> set B" using e' by simp
        with upd(1) True d have se: "snd e' = e" by (metis eq_key_imp_eq_value)
        have "\<not> usable_directory (directory x)" using pl x True ok by simp
        then have "?ok (id' x, merge_existing now e x)"
          using ok True se by (simp add: directory_merge_existing)
        moreover have "(id' x, merge_existing now e x) \<in> set ?B'" using upd(2) by simp
        ultimately show ?thesis by blast
      next
        case False
        then have "e' \<in> set ?B'" using upd(2) e' by simp
        then show ?thesis using ok by blast
      qed
    next
      case (rekey ke ve)
      show ?thesis
      proof (cases "fst e' = ke")
        case True
        have "(fst e', snd e') \<in> set B" using e' by simp
        with rekey(3) True d have se: "snd e' = ve" by (metis eq_key_imp_eq_value)
        have "?esc ?S'" using ok True se rekey(2,5,6) by simp
        then show ?thesis by simp
      next
        case False
        then have "e' \<in> set ?B'" using rekey(8) e' by simp
        then show ?thesis using ok by blast
      qed
    next
      case new
      have "e' \<in> set ?B'" using new(3) e' by simp
      then show ?thesis using ok by blast
    qed
  qed
qed

lemma dir_fold:
  assumes "wf_map B0"
  shows "dir_inv P B0 (foldl (merge_step now) (B0, {}) P)"
proof -
  let ?I = "\<lambda>s. wf_map (fst s) \<and> dir_inv P B0 s"
  have "?I (foldl (merge_step now) (B0, {}) P)"
  proof (rule foldl_invariant)
    show "?I (B0, {})" using assms by (auto simp: dir_inv_def)
  next
    fix s x assume x: "x \<in> set P" and I: "?I s"
    obtain B S where s: "s = (B, S)" by (cases s)
    show "?I (merge_step now s x)"
      using wf_step[of B now S x] dir_step[OF _ x, of B B0 S now] I unfolding s by simp
  qed
  then show ?thesis by simp
qed

lemma directory_kept:
  assumes d: "distinct (map id' (loops st))" and r: "r \<in> set (loops st)"
    and pl: "\<forall>c\<in>set P. id' c = id' r \<longrightarrow> \<not> usable_directory (directory c)"
    and nk: "\<not> (source r = Tool \<and> startsWith (id' r) ''primary-'' \<and> ''(primary)'' \<in> id' ` set P)"
  shows "\<exists>r'\<in>set (loops (mergePolled now P st)). id' r' = id' r \<and> directory r' = directory r"
proof -
  define B0 where "B0 = map (\<lambda>l. (id' l, l)) (loops st)"
  define s where "s = foldl (merge_step now) (B0, {}) P"
  define M where "M = merged_map now P st"
  define L' where "L' = loops (mergePolled now P st)"
  note mp = merge_pass[OF d, of now P, folded B0_def, folded s_def M_def L'_def]
  have sn: "snd s = id' ` set P" by (rule mp(2))
  have m: "M = mark_removed (snd s) (fst s)" by (rule mp(3))
  have sl: "set L' = snd ` set M" by (rule mp(7))
  have wf: "wf_map (fst s)" using mp(1) by (simp add: loop_inv_def)
  have w0: "wf_map B0" unfolding B0_def by (rule wf_byId0[OF d])
  have di: "dir_inv P B0 s" unfolding s_def by (rule dir_fold[OF w0])
  have e0: "(id' r, r) \<in> set B0" using r by (auto simp: B0_def)
  from di e0 pl nk sn obtain e' where e': "e' \<in> set (fst s)"
    and ok: "fst e' = id' r" "directory (snd e') = directory r"
    unfolding dir_inv_def by fastforce
  have ie: "id' (snd e') = fst e'" by (rule wf_mapD[OF wf e'])
  obtain v where v: "v \<in> set L'" "id' v = id' r" "directory v = directory r"
  proof (cases "id' (snd e') \<in> snd s \<or> source (snd e') = Tool")
    case True
    from mark_keeps[OF e' True] have "snd e' \<in> set L'" unfolding sl m by force
    then show ?thesis using that[of "snd e'"] ie ok by simp
  next
    case False
    then have "(fst e', (snd e')\<lparr>removed := True\<rparr>) \<in> set M"
      unfolding m using mark_marks[OF e', of "snd s"] by simp
    then have "(snd e')\<lparr>removed := True\<rparr> \<in> set L'" unfolding sl by force
    then show ?thesis using that[of "(snd e')\<lparr>removed := True\<rparr>"] ie ok by simp
  qed
  then show ?thesis unfolding L'_def by blast
qed

lemma usable_directory_iff:
  "usable_directory d \<longleftrightarrow> (\<exists>s. d = Some s \<and> s \<noteq> [] \<and> \<not> startsWith s ''('')"
  by (cases d) (simp_all add: usable_directory_def)

lemma parse_directory_abs:
  "parse_directory raw = None \<or> (\<exists>p. parse_directory raw = Some p \<and> startsWith p ''/'')"
  by (auto simp: parse_directory_def isAbsPath_def split: option.splits)

lemma parse_directory_none:
  "\<not> isAbsPath (str_field raw ''directory'') \<Longrightarrow> \<not> isAbsPath (str_field raw ''path'') \<Longrightarrow>
   \<not> isAbsPath (str_field raw ''workspace'') \<Longrightarrow> \<not> isAbsPath (str_field raw ''worktree_path'') \<Longrightarrow>
   parse_directory raw = None"
  by (simp add: parse_directory_def)

lemma parse_record_directory:
  "parse_record now raw = Some l \<Longrightarrow> directory l = parse_directory raw"
  by (auto simp: parse_record_def split: option.splits if_splits)

text \<open>
  Claim C5. A candidate whose directory is null, empty or starts with \<^verbatim>\<open>(\<close> never replaces the
  directory of the record it updates. For a merge: in a collection with unique identities, a
  record all of whose candidates of the same identity carry such a directory is in the
  collection afterwards under its identity with the directory it had (a tool-started
  \<^verbatim>\<open>primary-\<close> record in a pass that polls \<^verbatim>\<open>(primary)\<close> is set aside: it may be re-keyed). The
  parser gives a record the directory \<open>parse_directory\<close>, which is null or an absolute path,
  and null when none of the four directory-like members is an absolute path.
\<close>

theorem directory_not_downgraded:
  "(\<not> usable_directory (directory next) \<longrightarrow>
      directory (merge_existing now existing next) = directory existing) \<and>
   (usable_directory d \<longleftrightarrow> (\<exists>s. d = Some s \<and> s \<noteq> [] \<and> \<not> startsWith s ''('')) \<and>
   (distinct (map id' (loops st)) \<and> r \<in> set (loops st) \<and>
    (\<forall>c\<in>set polled. id' c = id' r \<longrightarrow> \<not> usable_directory (directory c)) \<and>
    \<not> (source r = Tool \<and> startsWith (id' r) ''primary-'' \<and> ''(primary)'' \<in> id' ` set polled) \<longrightarrow>
      (\<exists>r'\<in>set (loops (mergePolled now polled st)). id' r' = id' r \<and> directory r' = directory r)) \<and>
   (parse_record now raw = Some l \<longrightarrow> directory l = parse_directory raw) \<and>
   (parse_directory raw = None \<or> (\<exists>p. parse_directory raw = Some p \<and> startsWith p ''/'')) \<and>
   (\<not> isAbsPath (str_field raw ''directory'') \<and> \<not> isAbsPath (str_field raw ''path'') \<and>
    \<not> isAbsPath (str_field raw ''workspace'') \<and> \<not> isAbsPath (str_field raw ''worktree_path'') \<longrightarrow>
      parse_directory raw = None)"
proof (intro conjI impI)
  assume "\<not> usable_directory (directory next)"
  then show "directory (merge_existing now existing next) = directory existing"
    by (rule directory_merge_existing)
next
  show "usable_directory d \<longleftrightarrow> (\<exists>s. d = Some s \<and> s \<noteq> [] \<and> \<not> startsWith s ''('')"
    by (rule usable_directory_iff)
next
  assume a: "distinct (map id' (loops st)) \<and> r \<in> set (loops st) \<and>
    (\<forall>c\<in>set polled. id' c = id' r \<longrightarrow> \<not> usable_directory (directory c)) \<and>
    \<not> (source r = Tool \<and> startsWith (id' r) ''primary-'' \<and> ''(primary)'' \<in> id' ` set polled)"
  show "\<exists>r'\<in>set (loops (mergePolled now polled st)). id' r' = id' r \<and> directory r' = directory r"
    by (rule directory_kept) (use a in blast)+
next
  assume "parse_record now raw = Some l"
  then show "directory l = parse_directory raw" by (rule parse_record_directory)
next
  show "parse_directory raw = None \<or> (\<exists>p. parse_directory raw = Some p \<and> startsWith p ''/'')"
    by (rule parse_directory_abs)
next
  assume "\<not> isAbsPath (str_field raw ''directory'') \<and> \<not> isAbsPath (str_field raw ''path'') \<and>
    \<not> isAbsPath (str_field raw ''workspace'') \<and> \<not> isAbsPath (str_field raw ''worktree_path'')"
  then show "parse_directory raw = None" by (simp add: parse_directory_none)
qed

theorem directory_not_downgraded_witness:
  "directory ex_worker = Some ''/p'' \<and>
   \<not> usable_directory (directory ex_inplace_candidate) \<and>
   directory (merge_existing 5 ex_worker ex_inplace_candidate) = Some ''/p'' \<and>
   (\<exists>r'\<in>set (loops (mergePolled 5 [ex_inplace_candidate] ex_manager)).
       id' r' = ''w1'' \<and> directory r' = Some ''/p'') \<and>
   parse_directory ex_raw = None"
proof -
  note t = directory_not_downgraded[of ex_inplace_candidate 5 ex_worker "Some ''(in-place)''"
      ex_manager ex_worker "[ex_inplace_candidate]" ex_raw "ex_worker"]
  have n: "\<not> usable_directory (directory ex_inplace_candidate)"
    by (simp add: ex_inplace_candidate_def mk_loop_def usable_directory_def startsWith_def)
  have w: "directory ex_worker = Some ''/p''" "id' ex_worker = ''w1''"
    by (simp_all add: ex_defs)
  have h: "distinct (map id' (loops ex_manager)) \<and> ex_worker \<in> set (loops ex_manager) \<and>
    (\<forall>c\<in>set [ex_inplace_candidate]. id' c = id' ex_worker \<longrightarrow> \<not> usable_directory (directory c)) \<and>
    \<not> (source ex_worker = Tool \<and> startsWith (id' ex_worker) ''primary-'' \<and>
       ''(primary)'' \<in> id' ` set [ex_inplace_candidate])"
    using n by (simp add: ex_defs)
  have p: "\<not> isAbsPath (str_field ex_raw ''directory'') \<and> \<not> isAbsPath (str_field ex_raw ''path'') \<and>
    \<not> isAbsPath (str_field ex_raw ''workspace'') \<and> \<not> isAbsPath (str_field ex_raw ''worktree_path'')"
    by (simp add: ex_raw_def str_field_def get_field_def isAbsPath_def startsWith_def)
  from t n have 1: "directory (merge_existing 5 ex_worker ex_inplace_candidate) = directory ex_worker"
    by blast
  from t h have 2: "\<exists>r'\<in>set (loops (mergePolled 5 [ex_inplace_candidate] ex_manager)).
       id' r' = id' ex_worker \<and> directory r' = directory ex_worker" by blast
  from t p have 3: "parse_directory ex_raw = None" by blast
  show ?thesis using n w 1 2 3 by simp
qed

subsection \<open>Order\<close>

lemma tool_keys_step:
  assumes w: "wf_map B" and x: "source x \<noteq> Tool" and t: "tool_keys_inv K0 B"
  shows "tool_keys_inv K0 (fst (merge_step now (B, S) x))"
proof -
  have d: "distinct (map fst B)" using w by (simp add: wf_map_def)
  have old: "\<And>e. e \<in> set B \<Longrightarrow> source (snd e) = Tool \<Longrightarrow> fst e \<in> K0 \<or> fst e = ''(primary)''"
    using t by (auto simp: tool_keys_inv_def)
  from d show ?thesis
  proof (cases rule: merge_step_shape[where x = x and now = now and S = S])
    case (upd e)
    have "source e = Tool \<Longrightarrow> id' x \<in> K0 \<or> id' x = ''(primary)''" using old[OF upd(1)] by simp
    then show ?thesis unfolding tool_keys_inv_def upd(2) using old by auto
  next
    case (rekey ke ve)
    show ?thesis unfolding tool_keys_inv_def rekey(8) using old rekey(2) by auto
  next
    case new
    show ?thesis unfolding tool_keys_inv_def new(3) using old x by auto
  qed
qed

lemma filter_filter_neq:
  "ke \<in> K0 \<Longrightarrow> filter (\<lambda>k. k \<notin> K0) (filter (\<lambda>k. k \<noteq> ke) ks) = filter (\<lambda>k. k \<notin> K0) ks"
  by (induction ks) auto

lemma new_keys_step:
  assumes w: "wf_map B" and t: "tool_keys_inv K0 B"
  shows "filter (\<lambda>k. k \<notin> K0) (map fst (fst (merge_step now (B, S) x))) =
         (if id' x \<notin> K0 then set_add (filter (\<lambda>k. k \<notin> K0) (map fst B)) (id' x)
          else filter (\<lambda>k. k \<notin> K0) (map fst B))"
proof -
  have d: "distinct (map fst B)" using w by (simp add: wf_map_def)
  from d show ?thesis
  proof (cases rule: merge_step_shape[where x = x and now = now and S = S])
    case (upd e)
    have "id' x \<in> set (map fst B)" using upd(1) by force
    then show ?thesis unfolding upd(3) by (simp add: set_add_def)
  next
    case (rekey ke ve)
    have "ke \<in> K0 \<or> ke = ''(primary)''" using t rekey(3,5) by (auto simp: tool_keys_inv_def)
    then have ke: "ke \<in> K0" using not_primary_prefix[OF rekey(6)] by simp
    have ff: "filter (\<lambda>k. k \<noteq> ke \<and> k \<notin> K0) (map fst B) = filter (\<lambda>k. k \<notin> K0) (map fst B)"
      by (rule filter_cong) (use ke in auto)
    have "id' x \<notin> set (map fst B)" using rekey(1) by simp
    then show ?thesis unfolding rekey(9) by (simp add: set_add_def ff)
  next
    case new
    have "id' x \<notin> set (map fst B)" using new(1) by simp
    then show ?thesis unfolding new(4) by (simp add: set_add_def)
  qed
qed

lemma new_keys_fold:
  assumes "wf_map B" "tool_keys_inv K0 B" "\<forall>x\<in>set P. source x \<noteq> Tool"
  shows "filter (\<lambda>k. k \<notin> K0) (map fst (fst (foldl (merge_step now) (B, S) P))) =
         foldl set_add (filter (\<lambda>k. k \<notin> K0) (map fst B)) (filter (\<lambda>k. k \<notin> K0) (map id' P))"
  using assms
proof (induction P arbitrary: B S)
  case Nil
  then show ?case by simp
next
  case (Cons x P)
  obtain B1 S1 where s1: "merge_step now (B, S) x = (B1, S1)" by (cases "merge_step now (B, S) x")
  have b1: "B1 = fst (merge_step now (B, S) x)" using s1 by simp
  have w1: "wf_map B1" unfolding b1 by (rule wf_step[OF Cons.prems(1)])
  have t1: "tool_keys_inv K0 B1" unfolding b1
    using Cons.prems by (intro tool_keys_step) simp_all
  have p: "\<forall>x\<in>set P. source x \<noteq> Tool" using Cons.prems(3) by simp
  have n: "filter (\<lambda>k. k \<notin> K0) (map fst B1) =
         (if id' x \<notin> K0 then set_add (filter (\<lambda>k. k \<notin> K0) (map fst B)) (id' x)
          else filter (\<lambda>k. k \<notin> K0) (map fst B))"
    unfolding b1 by (rule new_keys_step[OF Cons.prems(1,2)])
  show ?case using Cons.IH[OF w1 t1 p, of S1] n s1 by simp
qed

lemma keys_kept_fold:
  assumes "wf_map B" "''(primary)'' \<in> fst ` set B \<or> ''(primary)'' \<notin> id' ` set P"
  shows "fst ` set B \<subseteq> fst ` set (fst (foldl (merge_step now) (B, S) P))"
  using assms
proof (induction P arbitrary: B S)
  case Nil
  then show ?case by simp
next
  case (Cons x P)
  obtain B1 S1 where s1: "merge_step now (B, S) x = (B1, S1)" by (cases "merge_step now (B, S) x")
  have b1: "B1 = fst (merge_step now (B, S) x)" using s1 by simp
  have w1: "wf_map B1" unfolding b1 by (rule wf_step[OF Cons.prems(1)])
  have d: "distinct (map fst B)" using Cons.prems(1) by (simp add: wf_map_def)
  from d have sub: "fst ` set B \<subseteq> fst ` set B1"
  proof (cases rule: merge_step_shape[where x = x and now = now and S = S])
    case (upd e)
    then show ?thesis unfolding b1 by (metis set_map subset_refl)
  next
    case (rekey ke ve)
    then show ?thesis using Cons.prems(2) by simp
  next
    case new
    then show ?thesis unfolding b1 by auto
  qed
  have "''(primary)'' \<in> fst ` set B1 \<or> ''(primary)'' \<notin> id' ` set P"
    using Cons.prems(2) sub by auto
  from Cons.IH[OF w1 this, of S1] sub show ?case using s1 by auto
qed

lemma order_general:
  assumes d: "distinct (map id' (loops st))"
  shows "map id' (loops (mergePolled now P st)) =
     filter (\<lambda>k. k \<in> id' ` set (loops (mergePolled now P st))) (map id' (loops st)) @
     filter (\<lambda>k. k \<notin> id' ` set (loops st)) (map id' (loops (mergePolled now P st)))"
proof -
  define M where "M = merged_map now P st"
  define L' where "L' = loops (mergePolled now P st)"
  define prev where "prev = map id' (loops st)"
  note mp = merge_pass[OF d, of now P, folded M_def L'_def prev_def]
  let ?old = "filter (\<lambda>k. k \<in> fst ` set M) prev"
  let ?new = "filter (\<lambda>k. k \<notin> set prev) (map fst M)"
  have ids: "map id' L' = ?old @ ?new" by (rule mp(6))
  have s: "id' ` set L' = fst ` set M" using mp(6) mp(9) by (metis set_map)
  have "filter (\<lambda>k. k \<notin> set prev) (map id' L') = ?new"
    unfolding ids by (simp add: filter_empty_conv)
  then have "map id' L' = filter (\<lambda>k. k \<in> id' ` set L') prev @ filter (\<lambda>k. k \<notin> set prev) (map id' L')"
    using ids s by simp
  then show ?thesis unfolding L'_def prev_def by simp
qed

lemma order_new:
  assumes d: "distinct (map id' (loops st))" and p: "\<forall>x\<in>set P. source x \<noteq> Tool"
  shows "filter (\<lambda>k. k \<notin> id' ` set (loops st)) (map id' (loops (mergePolled now P st))) =
         poll_order (filter (\<lambda>k. k \<notin> id' ` set (loops st)) (map id' P))"
proof -
  define B0 where "B0 = map (\<lambda>l. (id' l, l)) (loops st)"
  define s where "s = foldl (merge_step now) (B0, {}) P"
  define M where "M = merged_map now P st"
  define L' where "L' = loops (mergePolled now P st)"
  define K0 where "K0 = id' ` set (loops st)"
  note mp = merge_pass[OF d, of now P, folded B0_def, folded s_def M_def L'_def]
  have k0: "fst ` set B0 = K0" unfolding B0_def K0_def by force
  have w0: "wf_map B0" unfolding B0_def by (rule wf_byId0[OF d])
  have t0: "tool_keys_inv K0 B0" using k0 by (auto simp: tool_keys_inv_def)
  have f0: "filter (\<lambda>k. k \<notin> K0) (map fst B0) = []" using k0 by (auto simp: filter_empty_conv)
  have "filter (\<lambda>k. k \<notin> K0) (map fst (fst s)) =
        foldl set_add (filter (\<lambda>k. k \<notin> K0) (map fst B0)) (filter (\<lambda>k. k \<notin> K0) (map id' P))"
    unfolding s_def by (rule new_keys_fold[OF w0 t0 p])
  then have n: "filter (\<lambda>k. k \<notin> K0) (map fst M) = poll_order (filter (\<lambda>k. k \<notin> K0) (map id' P))"
    unfolding mp(3) f0 poll_order_def by simp
  have "map id' L' = filter (\<lambda>k. k \<in> fst ` set M) (map id' (loops st)) @
       filter (\<lambda>k. k \<notin> set (map id' (loops st))) (map fst M)" by (rule mp(6))
  then have "filter (\<lambda>k. k \<notin> K0) (map id' L') = filter (\<lambda>k. k \<notin> K0) (map fst M)"
    unfolding K0_def by (simp add: filter_empty_conv)
  then show ?thesis using n unfolding L'_def K0_def by simp
qed

lemma order_old:
  assumes d: "distinct (map id' (loops st))"
    and p: "''(primary)'' \<notin> id' ` set P \<or> ''(primary)'' \<in> id' ` set (loops st)"
  shows "filter (\<lambda>k. k \<in> id' ` set (loops (mergePolled now P st))) (map id' (loops st)) =
         map id' (loops st)"
proof -
  define B0 where "B0 = map (\<lambda>l. (id' l, l)) (loops st)"
  define s where "s = foldl (merge_step now) (B0, {}) P"
  define M where "M = merged_map now P st"
  define L' where "L' = loops (mergePolled now P st)"
  note mp = merge_pass[OF d, of now P, folded B0_def, folded s_def M_def L'_def]
  have k0: "fst ` set B0 = id' ` set (loops st)" unfolding B0_def by force
  have w0: "wf_map B0" unfolding B0_def by (rule wf_byId0[OF d])
  have "fst ` set B0 \<subseteq> fst ` set (fst s)"
    unfolding s_def using p k0 by (intro keys_kept_fold[OF w0]) auto
  moreover have "fst ` set M = fst ` set (fst s)" unfolding mp(3) by (metis keys_mark_removed set_map)
  moreover have "id' ` set L' = fst ` set M" using mp(6) mp(9) by (metis set_map)
  ultimately have "id' ` set (loops st) \<subseteq> id' ` set L'" using k0 by simp
  then have "filter (\<lambda>k. k \<in> id' ` set L') (map id' (loops st)) = map id' (loops st)"
    by (auto simp: filter_id_conv)
  then show ?thesis unfolding L'_def .
qed

text \<open>
  Claim C4. In a collection with unique identities, the identities after a merge are the
  earlier identities that are still present, in their earlier order, followed by the
  identities that are new. When the candidates are poll records (source \<^verbatim>\<open>discovered\<close>, as
  \<^verbatim>\<open>parseLoopsJson\<close> produces them), the new identities stand in the order in which the poll
  result first shows them; and when the poll does not report \<^verbatim>\<open>(primary)\<close>, or the collection
  already has it, every earlier identity is still present, so that the result is the earlier
  list of identities followed by the new ones. No field of a record enters the order.
\<close>

theorem mergePolled_order:
  assumes "distinct (map id' (loops st))"
  shows
   "map id' (loops (mergePolled now polled st)) =
      filter (\<lambda>k. k \<in> id' ` set (loops (mergePolled now polled st))) (map id' (loops st)) @
      filter (\<lambda>k. k \<notin> id' ` set (loops st)) (map id' (loops (mergePolled now polled st))) \<and>
    (list_all (\<lambda>c. source c = Discovered) polled \<longrightarrow>
       map id' (loops (mergePolled now polled st)) =
         filter (\<lambda>k. k \<in> id' ` set (loops (mergePolled now polled st))) (map id' (loops st)) @
         poll_order (filter (\<lambda>k. k \<notin> id' ` set (loops st)) (map id' polled))) \<and>
    (list_all (\<lambda>c. source c = Discovered) polled \<and>
     (''(primary)'' \<notin> id' ` set polled \<or> ''(primary)'' \<in> id' ` set (loops st)) \<longrightarrow>
       map id' (loops (mergePolled now polled st)) =
         map id' (loops st) @
         poll_order (filter (\<lambda>k. k \<notin> id' ` set (loops st)) (map id' polled)))"
proof (intro conjI impI)
  show g: "map id' (loops (mergePolled now polled st)) =
      filter (\<lambda>k. k \<in> id' ` set (loops (mergePolled now polled st))) (map id' (loops st)) @
      filter (\<lambda>k. k \<notin> id' ` set (loops st)) (map id' (loops (mergePolled now polled st)))"
    by (rule order_general[OF assms])
  {
    assume "list_all (\<lambda>c. source c = Discovered) polled"
    then have p: "\<forall>x\<in>set polled. source x \<noteq> Tool" by (simp add: list_all_iff)
    show "map id' (loops (mergePolled now polled st)) =
         filter (\<lambda>k. k \<in> id' ` set (loops (mergePolled now polled st))) (map id' (loops st)) @
         poll_order (filter (\<lambda>k. k \<notin> id' ` set (loops st)) (map id' polled))"
      using g order_new[OF assms p, of now] by simp
  }
  {
    assume a: "list_all (\<lambda>c. source c = Discovered) polled \<and>
     (''(primary)'' \<notin> id' ` set polled \<or> ''(primary)'' \<in> id' ` set (loops st))"
    then have p: "\<forall>x\<in>set polled. source x \<noteq> Tool" by (simp add: list_all_iff)
    from a have q: "''(primary)'' \<notin> id' ` set polled \<or> ''(primary)'' \<in> id' ` set (loops st)"
      by simp
    show "map id' (loops (mergePolled now polled st)) =
         map id' (loops st) @
         poll_order (filter (\<lambda>k. k \<notin> id' ` set (loops st)) (map id' polled))"
      using g order_new[OF assms p, of now] order_old[OF assms q, of now] by simp
  }
qed

theorem mergePolled_order_witness:
  "distinct (map id' (loops ex_manager)) \<and>
   map id' (loops ex_manager) = [''primary-1'', ''w1''] \<and>
   map id' ex_poll = [''w9'', ''w1'', ''w8'', ''w9''] \<and>
   map id' (loops (mergePolled 5 ex_poll ex_manager)) = [''primary-1'', ''w1'', ''w9'', ''w8'']"
proof -
  have d: "distinct (map id' (loops ex_manager))" by (simp add: ex_defs)
  have i: "map id' (loops ex_manager) = [''primary-1'', ''w1'']" by (simp add: ex_defs)
  have j: "map id' ex_poll = [''w9'', ''w1'', ''w8'', ''w9'']" by (simp add: ex_poll_def mk_loop_def)
  have a: "list_all (\<lambda>c. source c = Discovered) ex_poll \<and>
     (''(primary)'' \<notin> id' ` set ex_poll \<or> ''(primary)'' \<in> id' ` set (loops ex_manager))"
    by (simp add: ex_poll_def mk_loop_def)
  have s: "id' ` set (loops ex_manager) = set (map id' (loops ex_manager))" by simp
  have o: "poll_order (filter (\<lambda>k. k \<notin> id' ` set (loops ex_manager)) (map id' ex_poll)) = [''w9'', ''w8'']"
    unfolding s i j by (simp add: poll_order_def set_add_def)
  note t = mergePolled_order[OF d, of 5 ex_poll, THEN conjunct2, THEN conjunct2, rule_format, OF a]
  show ?thesis using d i j t o by simp
qed

subsection \<open>Re-keying\<close>

lemma find_Some_split:
  "find Q xs = Some x \<Longrightarrow> \<exists>pre post. xs = pre @ x # post \<and> Q x \<and> (\<forall>y\<in>set pre. \<not> Q y)"
proof (induction xs)
  case Nil
  then show ?case by simp
next
  case (Cons a xs)
  show ?case
  proof (cases "Q a")
    case True
    with Cons.prems have "a = x" by simp
    then show ?thesis using True by (intro exI[of _ "[]"] exI[of _ xs]) simp
  next
    case False
    with Cons.prems have "find Q xs = Some x" by simp
    from Cons.IH[OF this] obtain pre post where
      "xs = pre @ x # post" "Q x" "\<forall>y\<in>set pre. \<not> Q y" by blast
    then show ?thesis using False by (intro exI[of _ "a # pre"] exI[of _ post]) simp
  qed
qed

lemma find_map: "find Q (map f xs) = map_option f (find (Q \<circ> f) xs)"
  by (induction xs) auto

lemma find_filter: "(\<And>x. Q x \<Longrightarrow> R x) \<Longrightarrow> find Q (filter R xs) = find Q xs"
  by (induction xs) auto

lemma keys_sub_fold:
  assumes "wf_map B"
  shows "fst ` set (fst (foldl (merge_step now) (B, S) P)) \<subseteq> fst ` set B \<union> id' ` set P"
  using assms
proof (induction P arbitrary: B S)
  case Nil
  then show ?case by simp
next
  case (Cons x P)
  obtain B1 S1 where s1: "merge_step now (B, S) x = (B1, S1)" by (cases "merge_step now (B, S) x")
  have b1: "B1 = fst (merge_step now (B, S) x)" using s1 by simp
  have w1: "wf_map B1" unfolding b1 by (rule wf_step[OF Cons.prems(1)])
  have d: "distinct (map fst B)" using Cons.prems(1) by (simp add: wf_map_def)
  from d have "set (map fst B1) \<subseteq> insert (id' x) (set (map fst B))"
  proof (cases rule: merge_step_shape[where x = x and now = now and S = S])
    case (upd e)
    then show ?thesis unfolding b1 by auto
  next
    case (rekey ke ve)
    show ?thesis unfolding b1 rekey(9) by auto
  next
    case new
    show ?thesis unfolding b1 new(4) by auto
  qed
  then have "fst ` set B1 \<subseteq> insert (id' x) (fst ` set B)" by simp
  with Cons.IH[OF w1, of S1] show ?case using s1 by auto
qed

lemma primary_entries_replace:
  "\<not> startsWith k ''primary-'' \<Longrightarrow>
   primary_entries (map (\<lambda>en. if fst en = k then (k, v) else en) B) = primary_entries B"
  unfolding primary_entries_def by (induction B) auto

lemma primary_entries_fold:
  assumes "wf_map B" "\<forall>x\<in>set P. \<not> startsWith (id' x) ''primary-''" "''(primary)'' \<notin> id' ` set P"
  shows "primary_entries (fst (foldl (merge_step now) (B, S) P)) = primary_entries B"
  using assms
proof (induction P arbitrary: B S)
  case Nil
  then show ?case by simp
next
  case (Cons x P)
  obtain B1 S1 where s1: "merge_step now (B, S) x = (B1, S1)" by (cases "merge_step now (B, S) x")
  have b1: "B1 = fst (merge_step now (B, S) x)" using s1 by simp
  have w1: "wf_map B1" unfolding b1 by (rule wf_step[OF Cons.prems(1)])
  have d: "distinct (map fst B)" using Cons.prems(1) by (simp add: wf_map_def)
  have nx: "\<not> startsWith (id' x) ''primary-''" "id' x \<noteq> ''(primary)''" using Cons.prems(2,3) by auto
  from d have "primary_entries B1 = primary_entries B"
  proof (cases rule: merge_step_cases[where x = x and now = now and S = S])
    case (upd e)
    then show ?thesis unfolding b1 by (simp add: primary_entries_replace[OF nx(1)])
  next
    case (rekey ke ve)
    then show ?thesis using nx(2) by simp
  next
    case new
    then show ?thesis unfolding b1 using nx(1) by (simp add: primary_entries_def)
  qed
  moreover have "primary_entries (fst (foldl (merge_step now) (B1, S1) P)) = primary_entries B1"
    using Cons.prems(2,3) by (intro Cons.IH[OF w1]) auto
  ultimately show ?case using s1 by simp
qed

lemma find_rekey_primary: "find (rekey_match c) (primary_entries B) = find (rekey_match c) B"
  unfolding primary_entries_def by (rule find_filter) (simp add: rekey_match_def)

lemma primary_step:
  assumes w: "wf_map B" and p: "primary_inv p B"
  shows "primary_inv p (fst (merge_step now (B, S) x))"
proof -
  have d: "distinct (map fst B)" using w by (simp add: wf_map_def)
  from p obtain v where v: "(''(primary)'', v) \<in> set B" "source v = Tool" "ptySession v = p"
    by (auto simp: primary_inv_def)
  from d show ?thesis
  proof (cases rule: merge_step_shape[where x = x and now = now and S = S])
    case (upd e)
    show ?thesis
    proof (cases "id' x = ''(primary)''")
      case True
      with upd(1) v(1) d have "e = v" by (metis eq_key_imp_eq_value)
      then have "source (merge_existing now e x) = Tool \<and> ptySession (merge_existing now e x) = p"
        using v by simp
      moreover have "(''(primary)'', merge_existing now e x) \<in> set (fst (merge_step now (B, S) x))"
        unfolding upd(2) using True by simp
      ultimately show ?thesis unfolding primary_inv_def by blast
    next
      case False
      then have "(''(primary)'', v) \<in> set (fst (merge_step now (B, S) x))"
        unfolding upd(2) using v(1) by simp
      then show ?thesis unfolding primary_inv_def using v by blast
    qed
  next
    case (rekey ke ve)
    have "''(primary)'' \<in> fst ` set B" using v(1) by force
    then show ?thesis using rekey(1,2) by simp
  next
    case new
    have "(''(primary)'', v) \<in> set (fst (merge_step now (B, S) x))"
      unfolding new(3) using v(1) by simp
    then show ?thesis unfolding primary_inv_def using v by blast
  qed
qed

lemma primary_fold:
  assumes "wf_map B" "primary_inv p B"
  shows "primary_inv p (fst (foldl (merge_step now) (B, S) P))"
proof -
  let ?I = "\<lambda>s :: LoopMap \<times> string set. wf_map (fst s) \<and> primary_inv p (fst s)"
  have "?I (foldl (merge_step now) (B, S) P)"
  proof (rule foldl_invariant)
    show "?I (B, S)" using assms by simp
  next
    fix s x assume I: "?I s"
    obtain B' S' where s: "s = (B', S')" by (cases s)
    show "?I (merge_step now s x)"
      using wf_step[of B' now S' x] primary_step[of B' p now S' x] I unfolding s by simp
  qed
  then show ?thesis by simp
qed

lemma filter_key_singleton:
  "distinct (map f xs) \<Longrightarrow> v \<in> set xs \<Longrightarrow> filter (\<lambda>x. f x = f v) xs = [v]"
proof (induction xs)
  case Nil
  then show ?case by simp
next
  case (Cons a xs)
  show ?case
  proof (cases "a = v")
    case True
    have "f v \<notin> f ` set xs" using Cons.prems(1) True by simp
    then have "\<forall>x\<in>set xs. f x \<noteq> f v" by (metis imageI)
    then have "filter (\<lambda>x. f x = f v) xs = []" by (simp add: filter_empty_conv)
    then show ?thesis using True by simp
  next
    case False
    then have v: "v \<in> set xs" using Cons.prems(2) by simp
    have "f a \<notin> f ` set xs" using Cons.prems(1) by simp
    then have "f a \<noteq> f v" using v by (metis imageI)
    then show ?thesis using Cons.IH[OF _ v] Cons.prems(1) by simp
  qed
qed

lemma rekey_pass:
  fixes now :: int and P :: "TrackedLoop list" and st :: LoopManager
  assumes d: "distinct (map id' (loops st))"
    and np: "''(primary)'' \<notin> id' ` set (loops st)"
    and r: "find (\<lambda>l. source l = Tool \<and> startsWith (id' l) ''primary-'' \<and>
                      directory l = directory c) (loops st) = Some r"
    and c: "find (\<lambda>x. id' x = ''(primary)'') P = Some c"
    and h5: "\<forall>x\<in>set P. \<not> startsWith (id' x) ''primary-''"
  defines "B0 \<equiv> map (\<lambda>l. (id' l, l)) (loops st)"
  defines "s \<equiv> foldl (merge_step now) (B0, {}) P"
  shows "id' r \<notin> fst ` set (fst s)" and "primary_inv (ptySession r) (fst s)"
proof -
  from find_Some_split[OF c] obtain pre post where
    P: "P = pre @ c # post" and ic: "id' c = ''(primary)''"
    and npre: "\<forall>y\<in>set pre. id' y \<noteq> ''(primary)''" by blast
  have rp: "r \<in> set (loops st)" "source r = Tool" "startsWith (id' r) ''primary-''"
    using r by (auto simp: find_Some_iff) 
  have rn: "id' r \<noteq> ''(primary)''" by (rule not_primary_prefix[OF rp(3)])
  have w0: "wf_map B0" unfolding B0_def by (rule wf_byId0[OF d])
  have k0: "fst ` set B0 = id' ` set (loops st)" unfolding B0_def by force
  define s1 where "s1 = foldl (merge_step now) (B0, {}) pre"
  define B1 where "B1 = fst s1"
  define S1 where "S1 = snd s1"
  have s1: "s1 = (B1, S1)" by (simp add: B1_def S1_def)
  have w1: "wf_map B1" unfolding B1_def s1_def using loop_inv_fold[OF w0, of now pre]
    by (simp add: loop_inv_def)
  have d1: "distinct (map fst B1)" using w1 by (simp add: wf_map_def)
  have "fst ` set B1 \<subseteq> fst ` set B0 \<union> id' ` set pre"
    unfolding B1_def s1_def by (rule keys_sub_fold[OF w0])
  then have np1: "''(primary)'' \<notin> fst ` set B1" using np k0 npre by auto
  have hpre: "\<forall>x\<in>set pre. \<not> startsWith (id' x) ''primary-''" using h5 P by simp
  have pe: "primary_entries B1 = primary_entries B0"
    unfolding B1_def s1_def using npre by (intro primary_entries_fold[OF w0 hpre]) auto
  have m: "rekey_match c \<circ> (\<lambda>l. (id' l, l)) =
       (\<lambda>l. source l = Tool \<and> startsWith (id' l) ''primary-'' \<and> directory l = directory c)"
    by (simp add: fun_eq_iff rekey_match_def)
  have "find (rekey_match c) B1 = find (rekey_match c) (primary_entries B1)"
    by (rule find_rekey_primary[symmetric])
  also have "\<dots> = find (rekey_match c) B0" unfolding pe by (rule find_rekey_primary)
  also have "\<dots> = Some (id' r, r)" unfolding B0_def find_map m r by simp
  finally have f1: "find (rekey_match c) B1 = Some (id' r, r)" .
  define B2 where "B2 = fst (merge_step now (B1, S1) c)"
  define S2 where "S2 = snd (merge_step now (B1, S1) c)"
  have s2: "merge_step now (B1, S1) c = (B2, S2)" by (simp add: B2_def S2_def)
  have w2: "wf_map B2" unfolding B2_def by (rule wf_step[OF w1])
  from d1 have b2: "id' r \<notin> fst ` set B2 \<and> primary_inv (ptySession r) B2"
  proof (cases rule: merge_step_shape[where x = c and now = now and S = S1])
    case (upd e)
    then have "id' c \<in> fst ` set B1" by force
    then show ?thesis using np1 ic by simp
  next
    case new
    then show ?thesis using f1 ic by simp
  next
    case (rekey ke ve)
    have "Some (ke, ve) = Some (id' r, r)" using rekey(4) f1 by (rule trans[OF sym])
    then have kv: "ke = id' r" "ve = r" by simp_all
    have "set (map fst B2) = set (filter (\<lambda>k. k \<noteq> ke) (map fst B1) @ [id' c])"
      unfolding B2_def rekey(9) by simp
    then have "id' r \<notin> fst ` set B2" using kv rn ic by auto
    moreover have "(''(primary)'', merge_existing now r c) \<in> set B2"
      unfolding B2_def rekey(8) using ic kv by simp
    then have "primary_inv (ptySession r) B2"
      unfolding primary_inv_def using rp(2) by (intro exI[of _ "merge_existing now r c"]) simp
    ultimately show ?thesis by simp
  qed
  have e: "s = foldl (merge_step now) (B2, S2) post"
    unfolding s_def P using s1 s2 by (simp add: s1_def[symmetric])
  have "fst ` set (fst s) \<subseteq> fst ` set B2 \<union> id' ` set post"
    unfolding e by (rule keys_sub_fold[OF w2])
  moreover have "id' r \<notin> id' ` set post" using h5 P rp(3) by auto
  ultimately show "id' r \<notin> fst ` set (fst s)" using b2 by auto
  show "primary_inv (ptySession r) (fst s)"
    unfolding e using b2 by (intro primary_fold[OF w2]) simp
qed

lemma at_most_one_lost:
  assumes d: "distinct (map id' (loops st))"
  shows "length (filter (\<lambda>k. k \<notin> id' ` set (loops (mergePolled now P st))) (map id' (loops st))) \<le> 1"
proof -
  define B0 where "B0 = map (\<lambda>l. (id' l, l)) (loops st)"
  define s where "s = foldl (merge_step now) (B0, {}) P"
  define M where "M = merged_map now P st"
  define L' where "L' = loops (mergePolled now P st)"
  note mp = merge_pass[OF d, of now P, folded B0_def, folded s_def M_def L'_def]
  have k: "id' ` set L' = fst ` set (fst s)"
    using mp(6) mp(9) unfolding mp(3) by (metis keys_mark_removed set_map)
  have b: "map fst B0 = map id' (loops st)" unfolding B0_def by (simp add: comp_def)
  define lost where "lost = filter (\<lambda>k. k \<notin> fst ` set (fst s)) (map fst B0)"
  have "keys_inv B0 (fst s)" using mp(1) by (simp add: loop_inv_def)
  then have "lost = [] \<or> (\<exists>ke. lost = [ke])" unfolding keys_inv_def lost_def by blast
  then have "length lost \<le> 1" by auto
  then show ?thesis unfolding lost_def k[symmetric] b L'_def .
qed

lemma rekey_result:
  assumes d: "distinct (map id' (loops st))"
    and np: "''(primary)'' \<notin> id' ` set (loops st)"
    and r: "find (\<lambda>l. source l = Tool \<and> startsWith (id' l) ''primary-'' \<and>
                      directory l = directory c) (loops st) = Some r"
    and c: "find (\<lambda>x. id' x = ''(primary)'') P = Some c"
    and h5: "\<forall>x\<in>set P. \<not> startsWith (id' x) ''primary-''"
  shows "\<exists>r'. filter (\<lambda>l. id' l = ''(primary)'') (loops (mergePolled now P st)) = [r'] \<and>
              source r' = Tool \<and> ptySession r' = ptySession r \<and> \<not> removed r'"
    and "filter (\<lambda>k. k \<notin> id' ` set (loops (mergePolled now P st))) (map id' (loops st)) = [id' r]"
proof -
  define B0 where "B0 = map (\<lambda>l. (id' l, l)) (loops st)"
  define s where "s = foldl (merge_step now) (B0, {}) P"
  define M where "M = merged_map now P st"
  define L' where "L' = loops (mergePolled now P st)"
  note mp = merge_pass[OF d, of now P, folded B0_def, folded s_def M_def L'_def]
  note rk = rekey_pass[OF d np r c h5, of now, folded B0_def, folded s_def]
  have sn: "snd s = id' ` set P" by (rule mp(2))
  have m: "M = mark_removed (snd s) (fst s)" by (rule mp(3))
  have sl: "set L' = snd ` set M" by (rule mp(7))
  have wf: "wf_map (fst s)" and fr: "fresh_inv now B0 s" and ki: "keys_inv B0 (fst s)"
    using mp(1) by (simp_all add: loop_inv_def)
  have k: "id' ` set L' = fst ` set (fst s)"
    using mp(6) mp(9) unfolding m by (metis keys_mark_removed set_map)
  have dl: "distinct (map id' L')" unfolding mp(6) by (rule mp(8))
  have cp: "c \<in> set P" "id' c = ''(primary)''" using c by (auto simp: find_Some_iff)
  from rk(2) obtain v where v: "(''(primary)'', v) \<in> set (fst s)" "source v = Tool"
    "ptySession v = ptySession r" by (auto simp: primary_inv_def)
  have iv: "id' v = ''(primary)''" using wf_mapD[OF wf v(1)] by simp
  have "''(primary)'' \<in> snd s" unfolding sn using cp by force
  then have nr: "\<not> removed v" using fresh_invD[OF fr v(1)] by auto
  have "(''(primary)'', v) \<in> set M" unfolding m using v(2) by (intro mark_keeps[OF v(1)]) simp
  then have vl: "v \<in> set L'" unfolding sl by force
  have "filter (\<lambda>l. id' l = id' v) L' = [v]" by (rule filter_key_singleton[OF dl vl])
  then have "filter (\<lambda>l. id' l = ''(primary)'') L' = [v] \<and> source v = Tool \<and>
      ptySession v = ptySession r \<and> \<not> removed v" using iv v nr by simp
  then show "\<exists>r'. filter (\<lambda>l. id' l = ''(primary)'') (loops (mergePolled now P st)) = [r'] \<and>
              source r' = Tool \<and> ptySession r' = ptySession r \<and> \<not> removed r'"
    unfolding L'_def by blast
  have rp: "r \<in> set (loops st)" using r by (auto simp: find_Some_iff)
  have b: "map fst B0 = map id' (loops st)" unfolding B0_def by (simp add: comp_def)
  define lost where "lost = filter (\<lambda>k. k \<notin> fst ` set (fst s)) (map fst B0)"
  have "id' r \<in> set lost" using rk(1) rp unfolding lost_def b by simp
  moreover from ki have "lost = [] \<or> (\<exists>ke. lost = [ke])" unfolding keys_inv_def lost_def by blast
  ultimately have "lost = [id' r]" by auto
  then show "filter (\<lambda>k. k \<notin> id' ` set (loops (mergePolled now P st))) (map id' (loops st)) = [id' r]"
    unfolding lost_def k[symmetric] b L'_def .
qed

text \<open>
  Claim C2 (as amended). In a collection with unique identities and no record keyed
  \<^verbatim>\<open>(primary)\<close>, let \<open>c\<close> be the first candidate of the poll with identity \<^verbatim>\<open>(primary)\<close>, let
  \<open>r\<close> be the first record of the collection that is tool-started, has an identity starting
  with \<^verbatim>\<open>primary-\<close> and has the directory of \<open>c\<close>, and let no candidate carry an identity
  starting with \<^verbatim>\<open>primary-\<close>. Then after the merge exactly one record is keyed \<^verbatim>\<open>(primary)\<close>; its
  source is \<^verbatim>\<open>tool\<close>, its session is that of \<open>r\<close>, it is not removed; and the identity of \<open>r\<close> is
  the one and only earlier identity that is gone. In any merge of a collection with unique
  identities at most one earlier identity is gone afterwards: a pass re-keys at most once.
\<close>

theorem mergePolled_rekey:
  assumes "distinct (map id' (loops st))"
  shows
   "length (filter (\<lambda>k. k \<notin> id' ` set (loops (mergePolled now polled st))) (map id' (loops st))) \<le> 1 \<and>
    (''(primary)'' \<notin> id' ` set (loops st) \<and>
     find (\<lambda>l. source l = Tool \<and> startsWith (id' l) ''primary-'' \<and> directory l = directory c)
       (loops st) = Some r \<and>
     find (\<lambda>x. id' x = ''(primary)'') polled = Some c \<and>
     list_all (\<lambda>x. \<not> startsWith (id' x) ''primary-'') polled \<longrightarrow>
       (\<exists>r'. filter (\<lambda>l. id' l = ''(primary)'') (loops (mergePolled now polled st)) = [r'] \<and>
             source r' = Tool \<and> ptySession r' = ptySession r \<and> \<not> removed r') \<and>
       filter (\<lambda>k. k \<notin> id' ` set (loops (mergePolled now polled st))) (map id' (loops st)) = [id' r])"
proof (intro conjI impI)
  show "length (filter (\<lambda>k. k \<notin> id' ` set (loops (mergePolled now polled st))) (map id' (loops st))) \<le> 1"
    by (rule at_most_one_lost[OF assms])
next
  assume a: "''(primary)'' \<notin> id' ` set (loops st) \<and>
     find (\<lambda>l. source l = Tool \<and> startsWith (id' l) ''primary-'' \<and> directory l = directory c)
       (loops st) = Some r \<and>
     find (\<lambda>x. id' x = ''(primary)'') polled = Some c \<and>
     list_all (\<lambda>x. \<not> startsWith (id' x) ''primary-'') polled"
  then have h: "''(primary)'' \<notin> id' ` set (loops st)"
    "find (\<lambda>l. source l = Tool \<and> startsWith (id' l) ''primary-'' \<and> directory l = directory c)
       (loops st) = Some r"
    "find (\<lambda>x. id' x = ''(primary)'') polled = Some c"
    "\<forall>x\<in>set polled. \<not> startsWith (id' x) ''primary-''"
    by (simp_all add: list_all_iff)
  show "\<exists>r'. filter (\<lambda>l. id' l = ''(primary)'') (loops (mergePolled now polled st)) = [r'] \<and>
             source r' = Tool \<and> ptySession r' = ptySession r \<and> \<not> removed r'"
    by (rule rekey_result(1)[OF assms h])
  show "filter (\<lambda>k. k \<notin> id' ` set (loops (mergePolled now polled st))) (map id' (loops st)) = [id' r]"
    by (rule rekey_result(2)[OF assms h])
qed

theorem mergePolled_rekey_witness:
  "distinct (map id' (loops ex_manager)) \<and>
   (\<exists>r'. filter (\<lambda>l. id' l = ''(primary)'') (loops (mergePolled 5 [ex_primary_candidate] ex_manager)) = [r'] \<and>
         source r' = Tool \<and> ptySession r' = Some 7 \<and> \<not> removed r') \<and>
   filter (\<lambda>k. k \<notin> id' ` set (loops (mergePolled 5 [ex_primary_candidate] ex_manager)))
     (map id' (loops ex_manager)) = [''primary-1'']"
proof -
  have d: "distinct (map id' (loops ex_manager))" by (simp add: ex_defs)
  have a: "''(primary)'' \<notin> id' ` set (loops ex_manager) \<and>
     find (\<lambda>l. source l = Tool \<and> startsWith (id' l) ''primary-'' \<and>
                directory l = directory ex_primary_candidate) (loops ex_manager) = Some ex_tool_primary \<and>
     find (\<lambda>x. id' x = ''(primary)'') [ex_primary_candidate] = Some ex_primary_candidate \<and>
     list_all (\<lambda>x. \<not> startsWith (id' x) ''primary-'') [ex_primary_candidate]"
    by (simp add: ex_defs startsWith_def)
  have p: "ptySession ex_tool_primary = Some 7" "id' ex_tool_primary = ''primary-1''"
    by (simp_all add: ex_defs)
  note t = mergePolled_rekey[OF d, of 5 "[ex_primary_candidate]" ex_primary_candidate ex_tool_primary,
      THEN conjunct2, rule_format, OF a]
  show ?thesis using d t unfolding p by simp
qed

text \<open>
  Claim C2 as stated fails when two tool-started primary loops share the directory: the
  inner loop of \<^verbatim>\<open>mergePolled\<close> takes the first and leaves the loop. The second one meets the
  premises of the claim, yet it stays keyed \<^verbatim>\<open>primary-2\<close>, and the record keyed
  \<^verbatim>\<open>(primary)\<close> holds the session of the first.
\<close>

theorem mergePolled_rekey_second_counterexample:
  "ex_tool_primary2 \<in> set (loops ex_two_primaries) \<and> source ex_tool_primary2 = Tool \<and>
   startsWith (id' ex_tool_primary2) ''primary-'' \<and>
   directory ex_tool_primary2 = directory ex_primary_candidate \<and>
   ptySession ex_tool_primary2 = Some 8 \<and>
   ''(primary)'' \<notin> id' ` set (loops ex_two_primaries) \<and>
   id' ex_primary_candidate = ''(primary)'' \<and>
   map (\<lambda>l. (id' l, source l, ptySession l))
       (loops (mergePolled 5 [ex_primary_candidate] ex_two_primaries)) =
     [(''primary-2'', Tool, Some 8), (''(primary)'', Tool, Some 7)]"
  by code_simp

subsection \<open>Merging the same candidates again\<close>

lemma merge_seq_simps [simp]:
  "merge_seq now e [] = e"
  "merge_seq now e (y # ys) = merge_seq now (merge_existing now e y) ys"
  "merge_seq now e (ys @ [y]) = merge_existing now (merge_seq now e ys) y"
  by (simp_all add: merge_seq_def)

lemma dir_seq_simps [simp]:
  "dir_seq d [] = d"
  "dir_seq d (y # ys) = dir_seq (if usable_directory (directory y) then directory y else d) ys"
  "dir_seq d (ys @ [y]) = (if usable_directory (directory y) then directory y else dir_seq d ys)"
  by (simp_all add: dir_seq_def)

lemma wt_seq_simps [simp]:
  "wt_seq w [] = w"
  "wt_seq w (y # ys) = wt_seq (case worktree y of None \<Rightarrow> w | Some z \<Rightarrow> Some z) ys"
  "wt_seq w (ys @ [y]) = (case worktree y of None \<Rightarrow> wt_seq w ys | Some z \<Rightarrow> Some z)"
  by (simp_all add: wt_seq_def split: option.splits)

lemma merge_seq_closed:
  "ys \<noteq> [] \<Longrightarrow>
   merge_seq now e ys =
     (last ys)\<lparr> directory := dir_seq (directory e) ys, worktree := wt_seq (worktree e) ys,
                source := source e, ptySession := ptySession e, removed := False,
                lastSeenAt := now \<rparr>"
proof (induction ys rule: rev_induct)
  case Nil
  then show ?case by simp
next
  case (snoc y ys)
  show ?case
  proof (cases "ys = []")
    case True
    then show ?thesis by (simp add: merge_existing_def)
  next
    case False
    from snoc.IH[OF False] show ?thesis
      by (simp add: merge_existing_def cong: option.case_cong)
  qed
qed

lemma dir_seq_const:
  "\<exists>y\<in>set ys. usable_directory (directory y) \<Longrightarrow> dir_seq d ys = dir_seq d' ys"
proof (induction ys arbitrary: d d')
  case Nil
  then show ?case by simp
next
  case (Cons y ys)
  show ?case
  proof (cases "usable_directory (directory y)")
    case True
    then show ?thesis by simp
  next
    case False
    with Cons.prems have "\<exists>y\<in>set ys. usable_directory (directory y)" by simp
    from Cons.IH[OF this] show ?thesis using False by simp
  qed
qed

lemma dir_seq_id: "\<forall>y\<in>set ys. \<not> usable_directory (directory y) \<Longrightarrow> dir_seq d ys = d"
  by (induction ys arbitrary: d) simp_all

lemma dir_seq_idem: "dir_seq (dir_seq d ys) ys = dir_seq d ys"
proof (cases "\<exists>y\<in>set ys. usable_directory (directory y)")
  case True
  then show ?thesis by (rule dir_seq_const)
next
  case False
  then have "\<forall>y\<in>set ys. \<not> usable_directory (directory y)" by simp
  then show ?thesis by (simp add: dir_seq_id)
qed

lemma wt_seq_const: "\<exists>y\<in>set ys. worktree y \<noteq> None \<Longrightarrow> wt_seq w ys = wt_seq w' ys"
proof (induction ys arbitrary: w w')
  case Nil
  then show ?case by simp
next
  case (Cons y ys)
  show ?case
  proof (cases "worktree y")
    case (Some z)
    then show ?thesis by simp
  next
    case None
    with Cons.prems have "\<exists>y\<in>set ys. worktree y \<noteq> None" by simp
    from Cons.IH[OF this] show ?thesis using None by simp
  qed
qed

lemma wt_seq_id: "\<forall>y\<in>set ys. worktree y = None \<Longrightarrow> wt_seq w ys = w"
  by (induction ys arbitrary: w) simp_all

lemma wt_seq_idem: "wt_seq (wt_seq w ys) ys = wt_seq w ys"
proof (cases "\<exists>y\<in>set ys. worktree y \<noteq> None")
  case True
  then show ?thesis by (rule wt_seq_const)
next
  case False
  then have "\<forall>y\<in>set ys. worktree y = None" by simp
  then show ?thesis by (simp add: wt_seq_id)
qed

lemma absorb_new: "merge_existing n2 (merge_new n1 y) y = (merge_new n1 y)\<lparr>lastSeenAt := n2\<rparr>"
  by (simp add: merge_existing_def merge_new_def split: option.splits)

lemma absorb:
  assumes a: "absorbs n1 v ys" and ne: "ys \<noteq> []"
  shows "merge_seq n2 v ys = v\<lparr>lastSeenAt := n2\<rparr>"
  using a unfolding absorbs_def
proof (elim disjE exE conjE)
  fix e assume v: "v = merge_seq n1 e ys"
  show ?thesis
    unfolding merge_seq_closed[OF ne, of n2 v]
    unfolding v merge_seq_closed[OF ne, of n1 e]
    by (simp add: dir_seq_idem wt_seq_idem)
next
  fix y ys' assume ys: "ys = y # ys'" and v: "v = merge_seq n1 (merge_new n1 y) ys'"
  show ?thesis
  proof (cases "ys' = []")
    case True
    then show ?thesis using ys v by (simp add: absorb_new)
  next
    case False
    have d: "dir_seq (if usable_directory (directory y) then directory y
                      else dir_seq (directory y) ys') ys' = dir_seq (directory y) ys'"
      by (simp add: dir_seq_idem)
    have w: "wt_seq (case worktree y of None \<Rightarrow> wt_seq (worktree y) ys' | Some z \<Rightarrow> Some z) ys' =
             wt_seq (worktree y) ys'"
      by (cases "worktree y") (simp_all add: wt_seq_idem)
    have v': "v = (last ys')\<lparr> directory := dir_seq (directory y) ys',
                worktree := wt_seq (worktree y) ys',
                source := source y, ptySession := ptySession y, removed := False,
                lastSeenAt := n1 \<rparr>"
      unfolding v merge_seq_closed[OF False] by (simp add: merge_new_def)
    have "merge_seq n2 v ys = merge_seq n2 (merge_existing n2 v y) ys'" unfolding ys by simp
    also have "\<dots> = v\<lparr>lastSeenAt := n2\<rparr>"
      unfolding merge_seq_closed[OF False, of n2] unfolding v'
      using d w by (simp add: merge_existing_def dir_seq_idem cong: option.case_cong)
    finally show ?thesis .
  qed
qed

lemma same_id_snoc:
  "same_id k (Q @ [x]) = (if id' x = k then same_id k Q @ [x] else same_id k Q)"
  by (simp add: same_id_def)

lemma same_id_Cons:
  "same_id k (x # P) = (if id' x = k then x # same_id k P else same_id k P)"
  by (simp add: same_id_def)

lemma same_id_empty: "k \<notin> id' ` set Q \<Longrightarrow> same_id k Q = []"
  by (auto simp: same_id_def filter_empty_conv)

lemma same_id_nonempty: "k \<in> id' ` set Q \<Longrightarrow> same_id k Q \<noteq> []"
  by (auto simp: same_id_def filter_empty_conv)

lemma absorbs_snoc: "absorbs now v ys \<Longrightarrow> absorbs now (merge_existing now v x) (ys @ [x])"
  unfolding absorbs_def
proof (elim disjE exE conjE)
  fix e assume "v = merge_seq now e ys"
  then have "merge_existing now v x = merge_seq now e (ys @ [x])" by simp
  then show "(\<exists>e. merge_existing now v x = merge_seq now e (ys @ [x])) \<or>
    (\<exists>y ys'. ys @ [x] = y # ys' \<and> merge_existing now v x = merge_seq now (merge_new now y) ys')"
    by blast
next
  fix y ys' assume "ys = y # ys'" "v = merge_seq now (merge_new now y) ys'"
  then have "ys @ [x] = y # (ys' @ [x]) \<and>
     merge_existing now v x = merge_seq now (merge_new now y) (ys' @ [x])" by simp
  then show "(\<exists>e. merge_existing now v x = merge_seq now e (ys @ [x])) \<or>
    (\<exists>y ys'. ys @ [x] = y # ys' \<and> merge_existing now v x = merge_seq now (merge_new now y) ys')"
    by blast
qed

lemma absorbs_first: "absorbs now (merge_existing now e x) [x]"
  unfolding absorbs_def by (intro disjI1 exI[of _ e]) simp

lemma absorbs_new: "absorbs now (merge_new now x) [x]"
  unfolding absorbs_def by (intro disjI2 exI[of _ x] exI[of _ "[]"]) simp

lemma seen_present_fold:
  assumes "wf_map B0" and h5: "\<forall>x\<in>set P. \<not> startsWith (id' x) ''primary-''"
  shows "id' ` set P \<subseteq> fst ` set (fst (foldl (merge_step now) (B0, {}) P))"
proof -
  let ?I = "\<lambda>s :: LoopMap \<times> string set. wf_map (fst s) \<and> snd s \<subseteq> fst ` set (fst s) \<and>
              (\<forall>k\<in>snd s. \<not> startsWith k ''primary-'')"
  have "?I (foldl (merge_step now) (B0, {}) P)"
  proof (rule foldl_invariant)
    show "?I (B0, {})" using assms by simp
  next
    fix s x assume x: "x \<in> set P" and I: "?I s"
    obtain B S where s: "s = (B, S)" by (cases s)
    have w: "wf_map B" and sub: "S \<subseteq> fst ` set B" and np: "\<forall>k\<in>S. \<not> startsWith k ''primary-''"
      using I s by simp_all
    have nx: "\<not> startsWith (id' x) ''primary-''" using h5 x by simp
    have d: "distinct (map fst B)" using w by (simp add: wf_map_def)
    from d have "insert (id' x) S \<subseteq> set (map fst (fst (merge_step now (B, S) x)))"
    proof (cases rule: merge_step_shape[where x = x and now = now and S = S])
      case (upd e)
      have "id' x \<in> fst ` set B" using upd(1) by force
      then show ?thesis unfolding upd(3) using sub by simp
    next
      case (rekey ke ve)
      have "ke \<notin> S" using np rekey(6) by blast
      then show ?thesis unfolding rekey(9) using sub by auto
    next
      case new
      show ?thesis unfolding new(4) using sub by auto
    qed
    then show "?I (merge_step now s x)"
      unfolding s using wf_step[OF w, of now S x] np nx by (simp add: merge_step_seen)
  qed
  then show ?thesis by (simp add: merge_loop_seen)
qed

lemma absorbs_fold:
  assumes w0: "wf_map B0" and h5: "\<forall>x\<in>set P. \<not> startsWith (id' x) ''primary-''"
  shows "\<forall>e\<in>set (fst (foldl (merge_step now) (B0, {}) P)).
           fst e \<in> id' ` set P \<longrightarrow> absorbs now (snd e) (same_id (fst e) P)"
  using h5
proof (induction P rule: rev_induct)
  case Nil
  then show ?case by simp
next
  case (snoc x Q)
  define s where "s = foldl (merge_step now) (B0, {}) Q"
  define B where "B = fst s"
  define S where "S = snd s"
  have s: "s = (B, S)" by (simp add: B_def S_def)
  have hq: "\<forall>x\<in>set Q. \<not> startsWith (id' x) ''primary-''" using snoc.prems by simp
  have IH: "\<And>e. e \<in> set B \<Longrightarrow> fst e \<in> id' ` set Q \<Longrightarrow> absorbs now (snd e) (same_id (fst e) Q)"
    using snoc.IH[OF hq] unfolding B_def s_def by blast
  have w: "wf_map B" unfolding B_def s_def using loop_inv_fold[OF w0, of now Q]
    by (simp add: loop_inv_def)
  have d: "distinct (map fst B)" using w by (simp add: wf_map_def)
  have seen: "id' ` set Q \<subseteq> fst ` set B"
    unfolding B_def s_def by (rule seen_present_fold[OF w0 hq])
  have step: "foldl (merge_step now) (B0, {}) (Q @ [x]) = merge_step now (B, S) x"
    using s by (simp add: s_def)
  have other: "\<And>e. e \<in> set B \<Longrightarrow> fst e \<noteq> id' x \<Longrightarrow> fst e \<in> id' ` set (Q @ [x]) \<Longrightarrow>
      absorbs now (snd e) (same_id (fst e) (Q @ [x]))"
    using IH by (auto simp: same_id_snoc)
  from d have "\<forall>e\<in>set (fst (merge_step now (B, S) x)).
           fst e \<in> id' ` set (Q @ [x]) \<longrightarrow> absorbs now (snd e) (same_id (fst e) (Q @ [x]))"
  proof (cases rule: merge_step_shape[where x = x and now = now and S = S])
    case (upd e)
    have "absorbs now (merge_existing now e x) (same_id (id' x) (Q @ [x]))"
    proof (cases "id' x \<in> id' ` set Q")
      case True
      from IH[OF upd(1)] True have "absorbs now e (same_id (id' x) Q)" by simp
      then show ?thesis unfolding same_id_snoc by (simp add: absorbs_snoc)
    next
      case False
      then show ?thesis unfolding same_id_snoc by (simp add: same_id_empty absorbs_first)
    qed
    then show ?thesis unfolding upd(2) using other by auto
  next
    case (rekey ke ve)
    have "id' x \<notin> id' ` set Q" using rekey(1) seen by blast
    then have "absorbs now (merge_existing now ve x) (same_id (id' x) (Q @ [x]))"
      unfolding same_id_snoc by (simp add: same_id_empty absorbs_first)
    moreover have "\<And>e. e \<in> set B \<Longrightarrow> fst e \<noteq> id' x" using rekey(1) by force
    ultimately show ?thesis unfolding rekey(8) using other by auto
  next
    case new
    have "id' x \<notin> id' ` set Q" using new(1) seen by blast
    then have "absorbs now (merge_new now x) (same_id (id' x) (Q @ [x]))"
      unfolding same_id_snoc by (simp add: same_id_empty absorbs_new)
    moreover have "\<And>e. e \<in> set B \<Longrightarrow> fst e \<noteq> id' x" using new(1) by force
    ultimately show ?thesis unfolding new(3) using other by auto
  qed
  then show ?case unfolding step .
qed

lemma update_only_fold:
  assumes "wf_map B" "id' ` set P \<subseteq> fst ` set B"
  shows "fst (foldl (merge_step now) (B, S) P) =
         map (\<lambda>e. (fst e, merge_seq now (snd e) (same_id (fst e) P))) B"
  using assms
proof (induction P arbitrary: B S)
  case Nil
  then show ?case by (simp add: same_id_def)
next
  case (Cons x P)
  have d: "distinct (map fst B)" using Cons.prems(1) by (simp add: wf_map_def)
  have inx: "id' x \<in> fst ` set B" using Cons.prems(2) by simp
  obtain B1 S1 where s1: "merge_step now (B, S) x = (B1, S1)" by (cases "merge_step now (B, S) x")
  have b1: "B1 = fst (merge_step now (B, S) x)" using s1 by simp
  have w1: "wf_map B1" unfolding b1 by (rule wf_step[OF Cons.prems(1)])
  from d have B1: "B1 = map (\<lambda>en. if fst en = id' x
                                   then (fst en, merge_existing now (snd en) x) else en) B"
  proof (cases rule: merge_step_cases[where x = x and now = now and S = S])
    case (upd e)
    have "\<And>en. en \<in> set B \<Longrightarrow> fst en = id' x \<Longrightarrow> snd en = e"
    proof -
      fix en assume "en \<in> set B" "fst en = id' x"
      then have "(id' x, snd en) \<in> set B" by (metis prod.collapse)
      with upd(1) d show "snd en = e" by (metis eq_key_imp_eq_value)
    qed
    then have "map (\<lambda>en. if fst en = id' x then (id' x, merge_existing now e x) else en) B =
               map (\<lambda>en. if fst en = id' x then (fst en, merge_existing now (snd en) x) else en) B"
      by (intro map_cong) auto
    then show ?thesis unfolding b1 upd(2) by simp
  next
    case (rekey ke ve)
    then show ?thesis using inx by simp
  next
    case new
    then show ?thesis using inx by simp
  qed
  have "map fst B1 = map fst B" unfolding B1 by (induction B) auto
  then have k1: "fst ` set B1 = fst ` set B" by (metis set_map)
  have "fst (foldl (merge_step now) (B1, S1) P) =
        map (\<lambda>e. (fst e, merge_seq now (snd e) (same_id (fst e) P))) B1"
    using Cons.prems(2) k1 by (intro Cons.IH[OF w1]) simp
  also have "\<dots> = map (\<lambda>e. (fst e, merge_seq now (snd e) (same_id (fst e) (x # P)))) B"
    unfolding B1 by (simp add: same_id_Cons)
  finally show ?case using s1 by simp
qed

lemma mergePolled_shape:
  "mergePolled now P st =
     st\<lparr> loops := loops (mergePolled now P st),
         focusedIndex :=
           (if length (filter (\<lambda>l. \<not> removed l) (loops (mergePolled now P st))) = 0 then 0
            else min (focusedIndex st)
                   (int (length (filter (\<lambda>l. \<not> removed l) (loops (mergePolled now P st)))) - 1)) \<rparr>"
  by (simp add: mergePolled_def Let_def getLoops_def)

lemma map_of_keys: "distinct (map fst M) \<Longrightarrow> map (\<lambda>k. the (map_of M k)) (map fst M) = map snd M"
proof (induction M)
  case Nil
  then show ?case by simp
next
  case (Cons e M)
  have "fst e \<notin> set (map fst M)" using Cons.prems by simp
  then have "\<And>k. k \<in> set (map fst M) \<Longrightarrow> k \<noteq> fst e" by blast
  then have "map (\<lambda>k. the (map_of (e # M) k)) (map fst M) = map (\<lambda>k. the (map_of M k)) (map fst M)"
    by (intro map_cong) (auto simp: map_of_Cons_code split: prod.splits)
  then show ?case using Cons by (cases e) simp
qed

lemma removed_True_id: "removed l \<Longrightarrow> l\<lparr>removed := True\<rparr> = l"
  by simp

lemma second_pass:
  assumes d1: "distinct (map id' L1)"
    and seen: "id' ` set P \<subseteq> id' ` set L1"
    and ab: "\<forall>l\<in>set L1. id' l \<in> id' ` set P \<longrightarrow> absorbs n1 l (same_id (id' l) P)"
    and rm: "\<forall>l\<in>set L1. id' l \<notin> id' ` set P \<and> source l \<noteq> Tool \<longrightarrow> removed l"
    and l1: "loops st1 = L1"
  shows "loops (mergePolled n2 P st1) = map (observed_again n2 P) L1"
proof -
  define B0 where "B0 = map (\<lambda>l. (id' l, l)) L1"
  define s where "s = foldl (merge_step n2) (B0, {}) P"
  define M where "M = merged_map n2 P st1"
  have w0: "wf_map B0" unfolding B0_def by (rule wf_byId0[OF d1])
  have k0: "fst ` set B0 = id' ` set L1" unfolding B0_def by force
  have sn: "snd s = id' ` set P" unfolding s_def by (simp add: merge_loop_seen)
  have "fst s = map (\<lambda>e. (fst e, merge_seq n2 (snd e) (same_id (fst e) P))) B0"
    unfolding s_def using seen k0 by (intro update_only_fold[OF w0]) simp
  also have "\<dots> = map (\<lambda>l. (id' l, merge_seq n2 l (same_id (id' l) P))) L1"
    unfolding B0_def by (simp add: comp_def)
  also have "\<dots> = map (\<lambda>l. (id' l, observed_again n2 P l)) L1"
  proof (rule map_cong[OF refl])
    fix l assume l: "l \<in> set L1"
    show "(id' l, merge_seq n2 l (same_id (id' l) P)) = (id' l, observed_again n2 P l)"
    proof (cases "id' l \<in> id' ` set P")
      case True
      then have "absorbs n1 l (same_id (id' l) P)" using ab l by blast
      from absorb[OF this same_id_nonempty[OF True], of n2] show ?thesis
        using True by (simp add: observed_again_def)
    next
      case False
      then show ?thesis by (simp add: same_id_empty observed_again_def)
    qed
  qed
  finally have fs: "fst s = map (\<lambda>l. (id' l, observed_again n2 P l)) L1" .
  have m: "M = mark_removed (snd s) (fst s)"
    unfolding M_def merged_map_def s_def B0_def l1 using byId0_distinct[OF d1] by (simp add: Let_def)
  have "M = map (\<lambda>l. (id' l, observed_again n2 P l)) L1"
    unfolding m fs sn mark_removed_def map_map
  proof (rule map_cong[OF refl])
    fix l assume l: "l \<in> set L1"
    show "((\<lambda>e. if id' (snd e) \<notin> id' ` set P \<and> source (snd e) \<noteq> Tool
                 then (fst e, (snd e)\<lparr>removed := True\<rparr>) else e) \<circ>
           (\<lambda>l. (id' l, observed_again n2 P l))) l = (id' l, observed_again n2 P l)"
    proof (cases "id' l \<notin> id' ` set P \<and> source l \<noteq> Tool")
      case True
      then have "removed l" using rm l by blast
      then show ?thesis using True by (simp add: observed_again_def)
    next
      case False
      then show ?thesis by (auto simp: observed_again_def)
    qed
  qed
  then have M: "M = map (\<lambda>l. (id' l, observed_again n2 P l)) L1" .
  have km: "map fst M = map id' L1" unfolding M by (simp add: comp_def)
  have dm: "distinct (map fst M)" unfolding km by (rule d1)
  have sm: "map snd M = map (observed_again n2 P) L1" unfolding M by (simp add: comp_def)
  have "orderedIds (map id' L1) M =
        filter (\<lambda>k. k \<in> fst ` set M) (map id' L1) @ filter (\<lambda>k. k \<notin> set (map id' L1)) (map fst M)"
    by (rule orderedIds_eq[OF dm])
  also have "filter (\<lambda>k. k \<in> fst ` set M) (map id' L1) = map id' L1"
    using km by (metis filter_True set_map)
  also have "filter (\<lambda>k. k \<notin> set (map id' L1)) (map fst M) = []"
    unfolding km by (simp add: filter_empty_conv)
  finally have oi: "orderedIds (map id' L1) M = map fst M" unfolding km by simp
  have "loops (mergePolled n2 P st1) = List.map_filter (map_get M) (map fst M)"
    unfolding loops_mergePolled M_def[symmetric] l1 oi ..
  also have "\<dots> = map (\<lambda>k. the (map_of M k)) (map fst M)"
    by (rule map_filter_get) simp
  also have "\<dots> = map snd M" by (rule map_of_keys[OF dm])
  finally show ?thesis unfolding sm .
qed

lemma first_pass:
  fixes n1 :: int and P :: "TrackedLoop list" and st :: LoopManager
  assumes d: "distinct (map id' (loops st))"
    and h5: "\<forall>x\<in>set P. \<not> startsWith (id' x) ''primary-''"
  defines "L1 \<equiv> loops (mergePolled n1 P st)"
  shows "distinct (map id' L1)" and "id' ` set P \<subseteq> id' ` set L1"
    and "\<forall>l\<in>set L1. id' l \<in> id' ` set P \<longrightarrow> absorbs n1 l (same_id (id' l) P)"
    and "\<forall>l\<in>set L1. id' l \<notin> id' ` set P \<and> source l \<noteq> Tool \<longrightarrow> removed l"
    and "\<forall>l\<in>set L1. id' l \<in> id' ` set P \<longrightarrow> lastSeenAt l = n1"
proof -
  define B0 where "B0 = map (\<lambda>l. (id' l, l)) (loops st)"
  define s where "s = foldl (merge_step n1) (B0, {}) P"
  define M where "M = merged_map n1 P st"
  note mp = merge_pass[OF d, of n1 P, folded B0_def, folded s_def M_def L1_def]
  have w0: "wf_map B0" unfolding B0_def by (rule wf_byId0[OF d])
  have sn: "snd s = id' ` set P" by (rule mp(2))
  have m: "M = mark_removed (snd s) (fst s)" by (rule mp(3))
  have sl: "set L1 = snd ` set M" by (rule mp(7))
  have wf: "wf_map (fst s)" and fr: "fresh_inv n1 B0 s" using mp(1) by (simp_all add: loop_inv_def)
  have k: "id' ` set L1 = fst ` set (fst s)"
    using mp(6) mp(9) unfolding m by (metis keys_mark_removed set_map)
  show "distinct (map id' L1)" unfolding mp(6) by (rule mp(8))
  show "id' ` set P \<subseteq> id' ` set L1"
    unfolding k s_def by (rule seen_present_fold[OF w0 h5])
  have af: "\<And>e. e \<in> set (fst s) \<Longrightarrow> fst e \<in> id' ` set P \<Longrightarrow>
      absorbs n1 (snd e) (same_id (fst e) P)"
    using absorbs_fold[OF w0 h5, of n1] unfolding s_def by blast
  have seen_kept: "\<And>l. l \<in> set L1 \<Longrightarrow> id' l \<in> id' ` set P \<Longrightarrow>
      \<exists>e\<in>set (fst s). snd e = l \<and> fst e = id' l"
  proof -
    fix l assume l: "l \<in> set L1" and i: "id' l \<in> id' ` set P"
    from l obtain mm where mm: "mm \<in> set M" "l = snd mm" unfolding sl by auto
    from mm(1)[unfolded m] show "\<exists>e\<in>set (fst s). snd e = l \<and> fst e = id' l"
    proof (cases rule: mark_cases)
      case kept
      then show ?thesis using mm(2) wf_mapD[OF wf kept(1)] by (intro bexI[of _ mm]) simp_all
    next
      case (marked e)
      then have "id' l \<notin> snd s" using mm(2) by simp
      then show ?thesis using i sn by simp
    qed
  qed
  show "\<forall>l\<in>set L1. id' l \<in> id' ` set P \<longrightarrow> absorbs n1 l (same_id (id' l) P)"
  proof (intro ballI impI)
    fix l assume l: "l \<in> set L1" and i: "id' l \<in> id' ` set P"
    from seen_kept[OF l i] obtain e where e: "e \<in> set (fst s)" "snd e = l" "fst e = id' l"
      by blast
    from af[OF e(1)] i e show "absorbs n1 l (same_id (id' l) P)" by simp
  qed
  show "\<forall>l\<in>set L1. id' l \<in> id' ` set P \<longrightarrow> lastSeenAt l = n1"
  proof (intro ballI impI)
    fix l assume l: "l \<in> set L1" and i: "id' l \<in> id' ` set P"
    from seen_kept[OF l i] obtain e where e: "e \<in> set (fst s)" "snd e = l" "fst e = id' l"
      by blast
    from fresh_invD[OF fr e(1)] i e sn show "lastSeenAt l = n1" by auto
  qed
  show "\<forall>l\<in>set L1. id' l \<notin> id' ` set P \<and> source l \<noteq> Tool \<longrightarrow> removed l"
  proof (intro ballI impI)
    fix l assume l: "l \<in> set L1" and i: "id' l \<notin> id' ` set P \<and> source l \<noteq> Tool"
    from l obtain mm where mm: "mm \<in> set M" "l = snd mm" unfolding sl by auto
    from mm(1)[unfolded m] show "removed l"
    proof (cases rule: mark_cases)
      case kept
      then show ?thesis using mm(2) i sn by simp
    next
      case (marked e)
      then show ?thesis using mm(2) by simp
    qed
  qed
qed

lemma length_active_observed:
  "length (filter (\<lambda>l. \<not> removed l) (map (observed_again now P) L)) =
   length (filter (\<lambda>l. \<not> removed l) L)"
  by (induction L) (auto simp: observed_again_def)

lemma merge_again:
  assumes d: "distinct (map id' (loops st))"
    and h5: "\<forall>x\<in>set P. \<not> startsWith (id' x) ''primary-''"
  shows "mergePolled n2 P (mergePolled n1 P st) =
         (mergePolled n1 P st)\<lparr>loops := map (observed_again n2 P) (loops (mergePolled n1 P st))\<rparr>"
proof -
  define st1 where "st1 = mergePolled n1 P st"
  define L1 where "L1 = loops st1"
  define a where "a = length (filter (\<lambda>l. \<not> removed l) L1)"
  note fp = first_pass[OF d h5, of n1, folded st1_def, folded L1_def]
  have l2: "loops (mergePolled n2 P st1) = map (observed_again n2 P) L1"
    by (rule second_pass[OF fp(1-4)]) (simp add: L1_def)
  have f1: "focusedIndex st1 = (if a = 0 then 0 else min (focusedIndex st) (int a - 1))"
    unfolding st1_def a_def L1_def st1_def by (subst mergePolled_shape) simp
  have a2: "length (filter (\<lambda>l. \<not> removed l) (loops (mergePolled n2 P st1))) = a"
    unfolding l2 a_def by (rule length_active_observed)
  have "mergePolled n2 P st1 =
     st1\<lparr> loops := map (observed_again n2 P) L1,
          focusedIndex := (if a = 0 then 0 else min (focusedIndex st1) (int a - 1)) \<rparr>"
    by (rule mergePolled_shape[of n2 P st1, unfolded a2, unfolded l2])
  also have "(if a = 0 then 0 else min (focusedIndex st1) (int a - 1)) = focusedIndex st1"
    unfolding f1 by simp
  finally have "mergePolled n2 P st1 = st1\<lparr>loops := map (observed_again n2 P) L1\<rparr>" by simp
  then show ?thesis unfolding L1_def st1_def .
qed

lemma merge_again_same_clock:
  assumes d: "distinct (map id' (loops st))"
    and h5: "\<forall>x\<in>set P. \<not> startsWith (id' x) ''primary-''"
  shows "mergePolled n1 P (mergePolled n1 P st) = mergePolled n1 P st"
proof -
  define st1 where "st1 = mergePolled n1 P st"
  note fp = first_pass[OF d h5, of n1, folded st1_def]
  have "map (observed_again n1 P) (loops st1) = map (\<lambda>l. l) (loops st1)"
  proof (rule map_cong[OF refl])
    fix l assume "l \<in> set (loops st1)"
    then have "id' l \<in> id' ` set P \<Longrightarrow> lastSeenAt l = n1" using fp(5) by blast
    then show "observed_again n1 P l = l" by (auto simp: observed_again_def)
  qed
  then have "map (observed_again n1 P) (loops st1) = loops st1" by simp
  then show ?thesis using merge_again[OF d h5, of n1 n1] unfolding st1_def by simp
qed

text \<open>
  Claim C3 (as amended). In a collection with unique identities, let no candidate carry an
  identity starting with \<^verbatim>\<open>primary-\<close>. Merging the same candidates a second time, at time
  \<open>n2\<close>, leaves the manager as the first merge left it (the order of the collection, every
  record, the focus), but for \<^verbatim>\<open>lastSeenAt\<close> of the records the poll observed, which is
  \<open>n2\<close>. When the clock reads the same at both calls, the second merge changes nothing.
\<close>

theorem mergePolled_twice:
  assumes "distinct (map id' (loops st))"
    and "list_all (\<lambda>x. \<not> startsWith (id' x) ''primary-'') polled"
  shows
   "mergePolled n2 polled (mergePolled n1 polled st) =
      (mergePolled n1 polled st)
        \<lparr>loops := map (observed_again n2 polled) (loops (mergePolled n1 polled st))\<rparr> \<and>
    mergePolled n1 polled (mergePolled n1 polled st) = mergePolled n1 polled st"
proof -
  have h5: "\<forall>x\<in>set polled. \<not> startsWith (id' x) ''primary-''"
    using assms(2) by (simp add: list_all_iff)
  show ?thesis
    using merge_again[OF assms(1) h5, of n2 n1] merge_again_same_clock[OF assms(1) h5, of n1]
    by simp
qed

theorem mergePolled_twice_witness:
  "distinct (map id' (loops ex_manager)) \<and>
   list_all (\<lambda>x. \<not> startsWith (id' x) ''primary-'') (ex_primary_candidate # ex_poll) \<and>
   mergePolled 6 (ex_primary_candidate # ex_poll) (mergePolled 5 (ex_primary_candidate # ex_poll) ex_manager) =
     (mergePolled 5 (ex_primary_candidate # ex_poll) ex_manager)
       \<lparr>loops := map (observed_again 6 (ex_primary_candidate # ex_poll))
                   (loops (mergePolled 5 (ex_primary_candidate # ex_poll) ex_manager))\<rparr> \<and>
   mergePolled 5 (ex_primary_candidate # ex_poll) (mergePolled 5 (ex_primary_candidate # ex_poll) ex_manager) =
     mergePolled 5 (ex_primary_candidate # ex_poll) ex_manager"
proof -
  have d: "distinct (map id' (loops ex_manager))" by (simp add: ex_defs)
  have h: "list_all (\<lambda>x. \<not> startsWith (id' x) ''primary-'') (ex_primary_candidate # ex_poll)"
    by (simp add: ex_defs ex_poll_def startsWith_def)
  show ?thesis
    by (intro conjI d h mergePolled_twice[OF d h, THEN conjunct1]
          mergePolled_twice[OF d h, THEN conjunct2])
qed

text \<open>
  Claim C3 as stated fails in two ways. With the clock unchanged: a poll result that lists
  the tool-started loop \<^verbatim>\<open>primary-1\<close> and then \<^verbatim>\<open>(primary)\<close> re-keys the record in the first
  merge, and the second merge inserts \<^verbatim>\<open>primary-1\<close> as a new record. With the clock advanced:
  \<^verbatim>\<open>lastSeenAt\<close> of an observed record is the time of the latest merge.
\<close>

theorem mergePolled_twice_counterexample:
  "map id' (loops (mergePolled 5 ex_poll_both ex_one_tool)) = [''(primary)''] \<and>
   map id' (loops (mergePolled 5 ex_poll_both (mergePolled 5 ex_poll_both ex_one_tool))) =
     [''(primary)'', ''primary-1''] \<and>
   map lastSeenAt (loops (mergePolled 5 [ex_worker] ex_one_tool)) = [0, 5] \<and>
   map lastSeenAt (loops (mergePolled 6 [ex_worker] (mergePolled 5 [ex_worker] ex_one_tool))) = [0, 6]"
  by code_simp

section \<open>What every operation of the manager maintains\<close>

lemma inv_new: "manager_inv new_manager"
  by (simp add: manager_inv_def new_manager_def getLoops_def)

lemma inv_getFocused: "manager_inv st \<Longrightarrow> manager_inv (fst (getFocused st))"
  by (auto simp: manager_inv_def getFocused_def Let_def getLoops_def)

lemma inv_cycleFocus:
  assumes "manager_inv st" "d = 1 \<or> d = - 1"
  shows "manager_inv (fst (cycleFocus d st))"
proof (cases "getLoops False st = []")
  case True
  then show ?thesis using assms by (simp add: manager_inv_def cycleFocus_def getLoops_def)
next
  case False
  let ?n = "int (length (getLoops False st))"
  have n: "0 < ?n" using False by simp
  have "0 \<le> focusedIndex st + d + ?n" using assms n by (auto simp: manager_inv_def)
  then have "js_rem (focusedIndex st + d + ?n) ?n = (focusedIndex st + d + ?n) mod ?n"
    by (rule js_rem_nonneg)
  moreover have "0 \<le> (focusedIndex st + d + ?n) mod ?n" "(focusedIndex st + d + ?n) mod ?n < ?n"
    using n by simp_all
  ultimately show ?thesis using assms(1) False
    by (simp add: manager_inv_def cycleFocus_def Let_def)
qed

lemma inv_setFocusById: "manager_inv st \<Longrightarrow> manager_inv (setFocusById i st)"
proof (cases "findIndex (\<lambda>l. id' l = i) (getLoops False st)")
  case None
  assume "manager_inv st"
  then show ?thesis using None by (simp add: setFocusById_def)
next
  case (Some k)
  assume a: "manager_inv st"
  from findIndex_Some[OF Some] have "k < length (getLoops False st)" by simp
  then show ?thesis using a Some by (simp add: manager_inv_def setFocusById_def)
qed

lemma distinct_mergePolled:
  assumes "distinct (map id' (loops st))"
  shows "distinct (map id' (loops (mergePolled now P st)))"
  using merge_pass(6,8)[OF assms, of now P] by simp

lemma focus_mergePolled:
  "0 \<le> focusedIndex st \<Longrightarrow>
   0 \<le> focusedIndex (mergePolled now P st) \<and>
   focusedIndex (mergePolled now P st) \<le> max 0 (int (length (getLoops False (mergePolled now P st))) - 1)"
  by (subst (1 2) mergePolled_shape, subst (3) mergePolled_shape) (auto simp: getLoops_def)

lemma inv_mergePolled: "manager_inv st \<Longrightarrow> manager_inv (mergePolled now P st)"
  using distinct_mergePolled[of st now P] focus_mergePolled[of st now P]
  by (simp add: manager_inv_def)

lemma active_update:
  "\<not> removed r \<Longrightarrow> i < length xs \<Longrightarrow>
   length (filter (\<lambda>l. \<not> removed l) xs) \<le> length (filter (\<lambda>l. \<not> removed l) (xs[i := r]))"
proof (induction xs arbitrary: i)
  case Nil
  then show ?case by simp
next
  case (Cons x xs)
  then show ?case by (cases i) auto
qed

lemma ids_update: "i < length xs \<Longrightarrow> id' r = id' (xs ! i) \<Longrightarrow> map id' (xs[i := r]) = map id' xs"
  by (simp add: map_update list_update_same_conv)

lemma inv_upsertToolLoop:
  assumes "manager_inv st"
  shows "manager_inv (upsertToolLoop now p st)"
proof (cases "findIndex (\<lambda>l. id' l = sp_id p) (loops st)")
  case None
  then have "sp_id p \<notin> id' ` set (loops st)" by (auto simp: findIndex_None)
  then have d: "distinct (map id' (loops st @ [tool_record now p]))"
    using assms by (simp add: manager_inv_def tool_record_def)
  have l: "length (filter (\<lambda>l. \<not> removed l) (loops st @ [tool_record now p])) =
           Suc (length (filter (\<lambda>l. \<not> removed l) (loops st)))"
    by (simp add: tool_record_def)
  show ?thesis using None assms d l
    by (auto simp: manager_inv_def upsertToolLoop_def Let_def getLoops_def)
next
  case (Some i)
  from findIndex_Some[OF Some] have i: "i < length (loops st)" "id' (loops st ! i) = sp_id p"
    by simp_all
  let ?r = "upsert_existing now p (loops st ! i)"
  have r: "\<not> removed ?r" "id' ?r = id' (loops st ! i)"
    using i(2) by (simp_all add: upsert_existing_def tool_record_def)
  have "map id' ((loops st)[i := ?r]) = map id' (loops st)" by (rule ids_update[OF i(1) r(2)])
  moreover have "length (filter (\<lambda>l. \<not> removed l) (loops st)) \<le>
      length (filter (\<lambda>l. \<not> removed l) ((loops st)[i := ?r]))"
    by (rule active_update[OF r(1) i(1)])
  ultimately show ?thesis using Some assms
    by (auto simp: manager_inv_def upsertToolLoop_def getLoops_def)
qed

lemma inv_fields:
  "manager_inv (st\<lparr>pollInFlight := b\<rparr>) = manager_inv st"
  "manager_inv (st\<lparr>consecutivePollFailures := c\<rparr>) = manager_inv st"
  "manager_inv (st\<lparr>lastPollError := e\<rparr>) = manager_inv st"
  by (simp_all add: manager_inv_def getLoops_def)

lemma inv_poll: "manager_inv st \<Longrightarrow> manager_inv (fst (poll env st))"
  by (auto simp: poll_def poll_enter_def poll_finish_def poll_body_def Let_def inv_fields
        inv_mergePolled split: sum.splits if_splits)

section \<open>The focus round trip in the states of a manager\<close>

lemma inv_poll_finish: "manager_inv st \<Longrightarrow> manager_inv (fst (poll_finish env st))"
  by (auto simp: poll_finish_def poll_body_def Let_def inv_fields
        inv_mergePolled split: sum.splits if_splits)

lemma reachable_inv: "reachable st \<Longrightarrow> manager_inv st"
proof (induction rule: reachable.induct)
  case constructed
  show ?case by (rule inv_new)
next
  case (read_focus st)
  then show ?case by (simp add: inv_getFocused)
next
  case (cycled st d)
  then show ?case by (simp add: inv_cycleFocus)
next
  case (focus_set st i)
  then show ?case by (simp add: inv_setFocusById)
next
  case (upserted st now p)
  then show ?case by (simp add: inv_upsertToolLoop)
next
  case (merged st now P)
  then show ?case by (simp add: inv_mergePolled)
next
  case (polled st env)
  then show ?case by (simp add: inv_poll)
next
  case (poll_entered st st')
  then show ?case by (auto simp: poll_enter_def inv_fields split: if_splits)
next
  case (poll_finished st env)
  then show ?case by (simp add: inv_poll_finish)
qed

lemma inv_in_range:
  "manager_inv st \<Longrightarrow> getLoops False st \<noteq> [] \<Longrightarrow>
   0 \<le> focusedIndex st \<and> focusedIndex st < int (length (getLoops False st))"
  by (auto simp: manager_inv_def)

text \<open>
  Claim C8. On an empty active set \<^verbatim>\<open>cycleFocus\<close> resets the cursor to 0 and returns null, in
  either direction; the function has no failing path. In every state that a manager reaches
  with a non-empty active set, whatever its size and wherever the cursor stands,
  \<^verbatim>\<open>cycleFocus(1)\<close> followed by \<^verbatim>\<open>cycleFocus(-1)\<close> returns the record that was focused at the
  start, the one \<^verbatim>\<open>getFocused\<close> reports, and restores the cursor. The same is stated for
  every state with the cursor within the active list, for every state that satisfies
  \<open>manager_inv\<close>, and for any cursor value once the focus has been read through
  \<^verbatim>\<open>getFocused\<close>, which clamps the cursor.
\<close>

theorem cycleFocus_roundtrip:
  "(getLoops False st = [] \<longrightarrow>
      cycleFocus 1 st = (st\<lparr>focusedIndex := 0\<rparr>, None) \<and>
      cycleFocus (- 1) st = (st\<lparr>focusedIndex := 0\<rparr>, None)) \<and>
   (reachable st \<and> getLoops False st \<noteq> [] \<longrightarrow>
      cycleFocus (- 1) (fst (cycleFocus 1 st)) = getFocused st \<and>
      snd (getFocused st) = Some (getLoops False st ! nat (focusedIndex st))) \<and>
   (getLoops False st \<noteq> [] \<and> 0 \<le> focusedIndex st \<and>
    focusedIndex st < int (length (getLoops False st)) \<longrightarrow>
      cycleFocus (- 1) (fst (cycleFocus 1 st)) = getFocused st \<and>
      snd (getFocused st) = Some (getLoops False st ! nat (focusedIndex st))) \<and>
   (getLoops False st \<noteq> [] \<and> manager_inv st \<longrightarrow>
      cycleFocus (- 1) (fst (cycleFocus 1 st)) = getFocused st) \<and>
   (getLoops False st \<noteq> [] \<longrightarrow>
      cycleFocus (- 1) (fst (cycleFocus 1 (fst (getFocused st)))) = getFocused st)"
proof -
  have r: "reachable st \<and> getLoops False st \<noteq> [] \<Longrightarrow>
        0 \<le> focusedIndex st \<and> focusedIndex st < int (length (getLoops False st))"
    using reachable_inv inv_in_range by blast
  have m: "getLoops False st \<noteq> [] \<and> manager_inv st \<Longrightarrow>
        0 \<le> focusedIndex st \<and> focusedIndex st < int (length (getLoops False st))"
    using inv_in_range by blast
  show ?thesis
    using r m cycle_empty roundtrip_in_range getFocused_in_range roundtrip_after_read
    by simp
qed

theorem cycleFocus_roundtrip_witness:
  "cycleFocus 1 (mk_manager [] 3) = (mk_manager [] 0, None) \<and>
   snd (cycleFocus (- 1) (fst (cycleFocus 1 ex_reached))) = Some (tool_record 6 (ex_start\<lparr>sp_id := ''b''\<rparr>)) \<and>
   fst (cycleFocus (- 1) (fst (cycleFocus 1 ex_reached))) = ex_reached \<and>
   snd (cycleFocus (- 1) (fst (cycleFocus 1 (ex_two 1)))) = Some (mk_loop ''b'' Discovered None None False) \<and>
   fst (cycleFocus (- 1) (fst (cycleFocus 1 (ex_two 0)))) = ex_two 0 \<and>
   snd (cycleFocus (- 1) (fst (cycleFocus 1 (fst (getFocused (ex_two 7)))))) = Some (mk_loop ''b'' Discovered None None False)"
proof -
  note th = cycleFocus_roundtrip
  have a: "getLoops False (mk_manager [] 3) = []" by (simp add: ev)
  have m: "(mk_manager [] 3)\<lparr>focusedIndex := 0\<rparr> = mk_manager [] 0" by (simp add: mk_manager_def)
  have 1: "cycleFocus 1 (mk_manager [] 3) = (mk_manager [] 0, None)"
    using th[of "mk_manager [] 3", THEN conjunct1, rule_format, OF a] m by simp
  have "reachable ex_reached"
    unfolding ex_reached_def by (intro reachable.intros) simp
  moreover have "getLoops False ex_reached \<noteq> []" by code_simp
  ultimately have hr: "reachable ex_reached \<and> getLoops False ex_reached \<noteq> []" by simp
  have gr: "getFocused ex_reached = (ex_reached, Some (tool_record 6 (ex_start\<lparr>sp_id := ''b''\<rparr>)))"
    by code_simp
  have 2: "snd (cycleFocus (- 1) (fst (cycleFocus 1 ex_reached))) = Some (tool_record 6 (ex_start\<lparr>sp_id := ''b''\<rparr>))"
    and 3: "fst (cycleFocus (- 1) (fst (cycleFocus 1 ex_reached))) = ex_reached"
    using th[of ex_reached, THEN conjunct2, THEN conjunct1, rule_format, OF hr] gr by simp_all
  have b: "getLoops False (ex_two 1) \<noteq> [] \<and> 0 \<le> focusedIndex (ex_two 1) \<and>
    focusedIndex (ex_two 1) < int (length (getLoops False (ex_two 1)))" by (simp add: ev ex_two_def)
  have g1: "snd (getFocused (ex_two 1)) = Some (mk_loop ''b'' Discovered None None False)"
    by (simp add: ev ex_two_def)
  have 4: "snd (cycleFocus (- 1) (fst (cycleFocus 1 (ex_two 1)))) = Some (mk_loop ''b'' Discovered None None False)"
    using th[of "ex_two 1", THEN conjunct2, THEN conjunct2, THEN conjunct1, rule_format, OF b] g1 by simp
  have i: "getLoops False (ex_two 0) \<noteq> [] \<and> manager_inv (ex_two 0)"
    by (simp add: ev ex_two_def manager_inv_def)
  have g0: "fst (getFocused (ex_two 0)) = ex_two 0" by (simp add: ev ex_two_def)
  have 5: "fst (cycleFocus (- 1) (fst (cycleFocus 1 (ex_two 0)))) = ex_two 0"
    using th[of "ex_two 0", THEN conjunct2, THEN conjunct2, THEN conjunct2, THEN conjunct1, rule_format, OF i] g0
    by simp
  have c: "getLoops False (ex_two 7) \<noteq> []" by (simp add: ev ex_two_def)
  have g7: "snd (getFocused (ex_two 7)) = Some (mk_loop ''b'' Discovered None None False)"
    by (simp add: ev ex_two_def)
  have 6: "snd (cycleFocus (- 1) (fst (cycleFocus 1 (fst (getFocused (ex_two 7)))))) = Some (mk_loop ''b'' Discovered None None False)"
    using th[of "ex_two 7", THEN conjunct2, THEN conjunct2, THEN conjunct2, THEN conjunct2, rule_format, OF c] g7
    by simp
  show ?thesis by (intro conjI) (rule 1 2 3 4 5 6)+
qed

end
